theory Spec2Isabelle
  imports Complex_Main "HOL-Library.Word" "HOL-Library.Multiset"
begin

section \<open>GoTile: tile coding of vectors\<close>

text \<open>
  A shallow embedding of the Go package \<^verbatim>\<open>gotile\<close>: the \<^verbatim>\<open>Tiling\<close> grid
  (\<^verbatim>\<open>NewTiling\<close>, \<^verbatim>\<open>Index\<close>, \<^verbatim>\<open>IndexBatch\<close>, \<^verbatim>\<open>Tiles\<close>) and the
  \<^verbatim>\<open>TileCoder\<close> built from several tilings (\<^verbatim>\<open>New\<close>, \<^verbatim>\<open>EncodeIndices\<close>,
  \<^verbatim>\<open>Encode\<close>, \<^verbatim>\<open>ToVector\<close>, \<^verbatim>\<open>ToIndices\<close>, \<^verbatim>\<open>VecLength\<close>).

  Conventions of the embedding.
  \<^item> A finite \<^verbatim>\<open>float64\<close> is a real number. The conversions between \<^verbatim>\<open>int\<close> and
    \<^verbatim>\<open>float64\<close> are those of Go: \<open>float64_of_int\<close> rounds an integer of more than 53
    bits to the nearest \<^verbatim>\<open>float64\<close>, ties to even, and \<open>int_of_float\<close> truncates and
    overflows. The additions, subtractions and divisions of \<^verbatim>\<open>float64\<close> are those of
    the real numbers, without rounding, and the values NaN and infinity do not
    exist: the statements below are about finite coordinates. A division by zero, an
    infinity or NaN in Go, is 0 in HOL; it occurs only for a bin count or a bin length
    0, which the valid tilings of the statements below do not have.
  \<^item> Go's \<^verbatim>\<open>int\<close> is the 64-bit two's complement integer. It is modelled by
    \<^typ>\<open>int\<close> with the wrap-around written out: every addition, subtraction and
    multiplication of the source is followed by \<open>wrap64\<close>.
  \<^item> A panic is a value \<open>Inl e\<close> of the result type \<open>error + 'a\<close>, and so is a returned
    Go \<^verbatim>\<open>error\<close>; \<open>returned\<close> tells the two apart.
  \<^item> The vectors and matrices of \<^verbatim>\<open>gonum/mat\<close> are lists of reals; the operations of
    that library are modelled after their documented contracts, with the panics on
    shapes and indices.
\<close>

subsection \<open>Machine integers, floats and errors\<close>

type_synonym float64 = real

definition wrap64 :: "int \<Rightarrow> int" where
  "wrap64 x = (x + 2 ^ 63) mod 2 ^ 64 - 2 ^ 63"

text \<open>
  The conversion \<^verbatim>\<open>float64(x)\<close> of an \<^verbatim>\<open>int\<close>: the nearest number with a significand
  of 53 bits, ties to the even significand. For a 64-bit \<open>x\<close> the number \<open>k\<close> of bits
  beyond 53 is at most 11; \<open>q\<close> is the distance of neighbouring \<^verbatim>\<open>float64\<close> numbers
  at \<open>x\<close>. An integer of magnitude up to \<open>2 ^ 53\<close> is converted exactly.
\<close>

definition float64_of_int :: "int \<Rightarrow> float64" where
  "float64_of_int x =
     (let a = \<bar>x\<bar>;
          k = length (filter (\<lambda>j. 2 ^ (53 + j) \<le> a) [0..<11]);
          q = 2 ^ k;
          m = a div q;
          r = a mod q;
          m' = (if q < 2 * r \<or> (q = 2 * r \<and> odd m) then m + 1 else m)
      in real_of_int (sgn x * (m' * q)))"

text \<open>
  The conversion \<^verbatim>\<open>int(f)\<close> of a float: truncation towards zero. Where the truncated
  value is no 64-bit integer, Go leaves the result to the implementation; it is
  \<open>- 2 ^ 63\<close> here, as on amd64.
\<close>

definition int_of_float :: "float64 \<Rightarrow> int" where
  "int_of_float f =
     (let z = (if 0 \<le> f then \<lfloor>f\<rfloor> else \<lceil>f\<rceil>)
      in if - (2 ^ 63) \<le> z \<and> z < 2 ^ 63 then z else - (2 ^ 63))"

text \<open>
  The failures of the package. The first three are the conditions the specification
  names; in the source they are the messages
  \<^item> \<open>DimensionMismatch\<close>: \<^verbatim>\<open>cannot specify minimum with fewer dimensions than maximum\<close>
    and \<^verbatim>\<open>there should be a single number of bins for each dimension\<close>,
  \<^item> \<open>InvalidConfiguration\<close>: \<^verbatim>\<open>cannot have less than 1 bin per dimension\<close>,
  \<^item> \<open>InvalidEncodedVector\<close>: the panic \<^verbatim>\<open>toIndices: vector is not a tile-coded vector\<close>.
  \<open>CouldNotCreateTiling i e\<close> is the error \<^verbatim>\<open>new: could not create tiling i: e\<close> of
  \<^verbatim>\<open>New\<close>. The others are panics of the libraries and of the Go runtime.
\<close>

datatype error =
    DimensionMismatch
  | InvalidConfiguration
  | InvalidEncodedVector
  | CouldNotCreateTiling nat error
  | UniformMaxLessThanMin
  | ErrShape
  | ErrZeroLength
  | ErrNegativeDimension
  | ErrIndexOutOfRange

text \<open>The failures that are returned as a Go \<^verbatim>\<open>error\<close>; the others are panics.\<close>

fun returned :: "error \<Rightarrow> bool" where
  "returned DimensionMismatch = True"
| "returned InvalidConfiguration = True"
| "returned (CouldNotCreateTiling i e) = True"
| "returned e = False"

text \<open>\<^verbatim>\<open>floatutils.Clip\<close>: clips a float to be in \<open>[min, max]\<close>.\<close>

definition Clip :: "float64 \<Rightarrow> float64 \<Rightarrow> float64 \<Rightarrow> float64" where
  "Clip f mn mx = (if f < mn then mn else if f > mx then mx else f)"

text \<open>\<^verbatim>\<open>prod\<close>: the product of all integers of a slice, as Go computes it.\<close>

definition prod_int :: "int list \<Rightarrow> int" where
  "prod_int i = fold (\<lambda>v p. wrap64 (p * v)) i 1"

subsection \<open>Tiling\<close>

text \<open>
  The struct \<^verbatim>\<open>Tiling\<close>. The field \<open>offsets\<close> is a 1 x n matrix in the source and
  is read only as \<^verbatim>\<open>offsets.At(0, i)\<close>: it is the list of its single row.
\<close>

record Tiling =
  offsets :: "float64 list"
  bins :: "int list"
  binLengths :: "float64 list"
  minDims :: "float64 list"
  seed :: "64 word"

text \<open>The default offset divisor, the constant \<^verbatim>\<open>OffsetDiv\<close>.\<close>

definition OffsetDiv :: float64 where
  "OffsetDiv = 3 / 2"

text \<open>
  The body of the loop of \<^verbatim>\<open>Index\<close> up to \<^verbatim>\<open>tileIndex := int(tile)\<close>: the tile along
  dimension \<open>i\<close> in which the coordinate \<open>v ! i\<close> falls, clipped to the tiling.
\<close>

definition tileIndex :: "Tiling \<Rightarrow> float64 list \<Rightarrow> nat \<Rightarrow> int" where
  "tileIndex t v i =
     (let data = v ! i + offsets t ! i;
          tile = real_of_int \<lfloor>(data - minDims t ! i) / binLengths t ! i\<rfloor>;
          tile = Clip tile 0 (float64_of_int (wrap64 (bins t ! i - 1)))
      in int_of_float tile)"

text \<open>
  The loop \<^verbatim>\<open>for i := len(t.bins) - 1; i > -1; i--\<close> of \<^verbatim>\<open>Index\<close>. The second argument
  counts the iterations left: at \<open>Suc i\<close> the body runs with the source's \<open>i\<close>. Reading
  \<open>v\<close> or a field of the tiling out of range panics.
\<close>

fun Index_loop :: "Tiling \<Rightarrow> float64 list \<Rightarrow> nat \<Rightarrow> int \<Rightarrow> error + int" where
  "Index_loop t v 0 index = Inr index"
| "Index_loop t v (Suc i) index =
     (if length v \<le> i \<or> length (offsets t) \<le> i \<or> length (minDims t) \<le> i
         \<or> length (binLengths t) \<le> i
      then Inl ErrIndexOutOfRange
      else if Suc i = length (bins t)
      then Index_loop t v i (wrap64 (index + tileIndex t v i))
      else Index_loop t v i (wrap64 (index + wrap64 (tileIndex t v i * bins t ! (i + 1)))))"

definition Index :: "Tiling \<Rightarrow> float64 list \<Rightarrow> error + int" where
  "Index t v = Index_loop t v (length (bins t)) 0"

definition Tiles :: "Tiling \<Rightarrow> int" where
  "Tiles t = prod_int (bins t)"


text \<open>
  The source of random offsets: \<^verbatim>\<open>rand.NewSource(seed)\<close>, the uniform distribution
  \<^verbatim>\<open>distmv.NewUniform(bounds, source)\<close> and the one sample drawn from it. The
  sampler is a parameter of the model: from the seed and the list of bounds
  \<open>(Min, Max)\<close> it gives one offset for each dimension. \<^verbatim>\<open>NewUniform\<close> panics when
  a bound has its maximum below its minimum; that check is part of \<open>NewTiling\<close> below.
\<close>

type_synonym sampler = "64 word \<Rightarrow> (float64 \<times> float64) list \<Rightarrow> float64 list"

text \<open>
  The length of the bins along dimension \<open>i\<close>, as the loop of \<^verbatim>\<open>NewTiling\<close> computes
  it from \<^verbatim>\<open>minDims\<close>, \<^verbatim>\<open>maxDims\<close> and \<^verbatim>\<open>bins\<close>.
\<close>

definition binLength :: "float64 list \<Rightarrow> float64 list \<Rightarrow> int list \<Rightarrow> nat \<Rightarrow> float64" where
  "binLength mins maxs bs i = (maxs ! i - mins ! i) / float64_of_int (bs ! i)"

text \<open>
  The bounds of the offsets that \<^verbatim>\<open>NewTiling\<close> hands to the uniform distribution.
  The source divides by the package constant \<^verbatim>\<open>OffsetDiv\<close>; its parameter
  \<^verbatim>\<open>offsetDiv\<close> is not read anywhere in the function.
\<close>

definition NewTiling_bounds ::
  "float64 list \<Rightarrow> float64 list \<Rightarrow> int list \<Rightarrow> float64 \<Rightarrow> (float64 \<times> float64) list" where
  "NewTiling_bounds mins maxs bs offsetDiv =
     map (\<lambda>i. let bound = binLength mins maxs bs i / OffsetDiv in (- bound, bound))
       [0..<length mins]"

text \<open>
  \<^verbatim>\<open>NewTiling(minDims, maxDims, bins, seed, offsetDiv)\<close>; the parameters are written
  \<open>mins\<close>, \<open>maxs\<close>, \<open>bs\<close> and \<open>sd\<close>, since the fields of the record have their names.
\<close>

definition NewTiling ::
  "sampler \<Rightarrow> float64 list \<Rightarrow> float64 list \<Rightarrow> int list \<Rightarrow> 64 word \<Rightarrow> float64
     \<Rightarrow> error + Tiling" where
  "NewTiling smp mins maxs bs sd offsetDiv =
     (if length mins \<noteq> length maxs then Inl DimensionMismatch
      else if length bs = 0 then Inl InvalidConfiguration
      else if length bs \<noteq> length mins then Inl DimensionMismatch
      else
        let lens = map (binLength mins maxs bs) [0..<length mins];
            bounds = NewTiling_bounds mins maxs bs offsetDiv
        in if list_ex (\<lambda>b. snd b < fst b) bounds then Inl UniformMaxLessThanMin
           else Inr \<lparr>offsets = smp sd bounds, bins = bs, binLengths = lens,
                     minDims = mins, seed = sd\<rparr>)"

subsection \<open>Vectors and matrices of gonum\<close>

text \<open>
  \<^verbatim>\<open>mat.NewVecDense(n, data)\<close>: panics when \<open>n\<close> is zero or negative, and when
  \<open>data\<close> is given and its length is not \<open>n\<close>; a nil \<open>data\<close> gives the zero vector.
\<close>

definition NewVecDense :: "int \<Rightarrow> float64 list option \<Rightarrow> error + float64 list" where
  "NewVecDense n data =
     (if n \<le> 0 then (if n = 0 then Inl ErrZeroLength else Inl ErrNegativeDimension)
      else case data of
             None \<Rightarrow> Inr (replicate (nat n) 0)
           | Some d \<Rightarrow> if int (length d) \<noteq> n then Inl ErrShape else Inr d)"

text \<open>\<^verbatim>\<open>SetVec(i, val)\<close>: panics when \<open>i\<close> is out of range.\<close>

definition SetVec :: "float64 list \<Rightarrow> int \<Rightarrow> float64 \<Rightarrow> error + float64 list" where
  "SetVec v i val =
     (if i < 0 \<or> int (length v) \<le> i then Inl ErrIndexOutOfRange else Inr (v[nat i := val]))"

text \<open>
  \<^verbatim>\<open>v.AddScaledVec(a, alpha, b)\<close> and \<^verbatim>\<open>v.AddVec(a, b)\<close>: the vectors \<open>a + alpha * b\<close>
  and \<open>a + b\<close>; both panic when \<open>a\<close> and \<open>b\<close> differ in length. In every call of
  the package the receiver is \<open>a\<close> itself, so the result replaces \<open>a\<close>.
\<close>

definition AddScaledVec :: "float64 list \<Rightarrow> float64 \<Rightarrow> float64 list \<Rightarrow> error + float64 list" where
  "AddScaledVec a alpha b =
     (if length a \<noteq> length b then Inl ErrShape else Inr (map2 (\<lambda>x y. x + alpha * y) a b))"

definition AddVec :: "float64 list \<Rightarrow> float64 list \<Rightarrow> error + float64 list" where
  "AddVec a b = (if length a \<noteq> length b then Inl ErrShape else Inr (map2 (\<lambda>x y. x + y) a b))"

text \<open>\<^verbatim>\<open>matutils\<close>: \<^verbatim>\<open>VecOnes\<close>, \<^verbatim>\<open>VecFloor\<close> (floor division by a constant), \<^verbatim>\<open>VecClip\<close>.\<close>

definition VecOnes :: "int \<Rightarrow> error + float64 list" where
  "VecOnes len = NewVecDense len (Some (replicate (nat len) 1))"

definition VecFloor :: "float64 list \<Rightarrow> float64 \<Rightarrow> float64 list" where
  "VecFloor a b = map (\<lambda>x. real_of_int \<lfloor>x / b\<rfloor>) a"

definition VecClip :: "float64 list \<Rightarrow> float64 \<Rightarrow> float64 \<Rightarrow> float64 list" where
  "VecClip a mn mx = map (\<lambda>x. Clip x mn mx) a"

text \<open>
  \<^verbatim>\<open>mat.Dense\<close>: a matrix of \<open>Rows\<close> rows and \<open>Cols\<close> columns, its elements stored row
  after row. \<^verbatim>\<open>RowView(i)\<close> is row \<open>i\<close> and panics when there is no such row;
  \<open>ColView\<close> is column \<open>c\<close>, one sample of a batch.
\<close>

record Dense =
  Rows :: nat
  Cols :: nat
  Data :: "float64 list"

definition RowView :: "Dense \<Rightarrow> nat \<Rightarrow> error + float64 list" where
  "RowView b i =
     (if Rows b \<le> i then Inl ErrIndexOutOfRange else Inr (take (Cols b) (drop (i * Cols b) (Data b))))"

definition ColView :: "Dense \<Rightarrow> nat \<Rightarrow> float64 list" where
  "ColView b c = map (\<lambda>r. Data b ! (r * Cols b + c)) [0..<Rows b]"

text \<open>Sequencing of steps that may panic.\<close>

definition bindE :: "error + 'a \<Rightarrow> ('a \<Rightarrow> error + 'b) \<Rightarrow> error + 'b" where
  "bindE m f = (case m of Inl e \<Rightarrow> Inl e | Inr x \<Rightarrow> f x)"

subsection \<open>IndexBatch\<close>

text \<open>
  The loop of \<^verbatim>\<open>IndexBatch\<close>, counted as the loop of \<open>Index\<close>. \<open>ones\<close> is the vector
  of ones and \<open>index\<close> the accumulated vector; \<open>data\<close> is cloned from row \<open>i\<close> of the
  batch in every iteration, so it is local to the body.
\<close>

fun IndexBatch_loop ::
  "Tiling \<Rightarrow> Dense \<Rightarrow> float64 list \<Rightarrow> nat \<Rightarrow> float64 list \<Rightarrow> error + float64 list" where
  "IndexBatch_loop t b ones 0 index = Inr index"
| "IndexBatch_loop t b ones (Suc i) index =
     (if length (offsets t) \<le> i \<or> length (minDims t) \<le> i \<or> length (binLengths t) \<le> i
      then Inl ErrIndexOutOfRange
      else
        bindE (RowView b i) (\<lambda>data.
        bindE (AddScaledVec data (offsets t ! i) ones) (\<lambda>data.
        bindE (AddScaledVec data (- (minDims t ! i)) ones) (\<lambda>data.
        let data = VecFloor data (binLengths t ! i);
            data = VecClip data 0 (float64_of_int (wrap64 (bins t ! i - 1)))
        in bindE (if Suc i = length (bins t) then AddVec index data
                  else AddScaledVec index (float64_of_int (bins t ! (i + 1))) data)
             (\<lambda>index. IndexBatch_loop t b ones i index)))))"

definition IndexBatch :: "Tiling \<Rightarrow> Dense \<Rightarrow> error + float64 list" where
  "IndexBatch t b =
     (let rows = int (Rows b) in
      bindE (VecOnes rows) (\<lambda>ones.
      bindE (NewVecDense rows None) (\<lambda>data.
      bindE (NewVecDense rows None) (\<lambda>index.
        IndexBatch_loop t b ones (length (bins t)) index))))"

subsection \<open>TileCoder\<close>

text \<open>
  The struct \<^verbatim>\<open>TileCoder\<close>. Its wait group and its two channels serve one call of
  \<^verbatim>\<open>EncodeIndices\<close> at a time; they are part of the state of a run, below.
\<close>

record TileCoder =
  tilings :: "Tiling list"
  includeBias :: bool

text \<open>
  \<^verbatim>\<open>New(minDims, maxDims, bins, seed, includeBias)\<close>: one tiling for each entry of
  \<open>bins\<close>, in order; the first tiling that cannot be built ends the construction:
  an error that \<^verbatim>\<open>NewTiling\<close> returns is wrapped with the number of the tiling, a
  panic of \<^verbatim>\<open>NewTiling\<close> is the panic of \<^verbatim>\<open>New\<close>. The call of \<^verbatim>\<open>NewTiling\<close> in the source gives no \<open>offsetDiv\<close>, which
  \<^verbatim>\<open>NewTiling\<close> declares and the benchmark passes to \<^verbatim>\<open>New\<close>; here \<open>New\<close> takes it
  and hands it on.
\<close>

fun New_loop ::
  "sampler \<Rightarrow> float64 list \<Rightarrow> float64 list \<Rightarrow> 64 word \<Rightarrow> float64 \<Rightarrow> nat \<Rightarrow> int list list
     \<Rightarrow> error + Tiling list" where
  "New_loop smp mins maxs sd offsetDiv tiling [] = Inr []"
| "New_loop smp mins maxs sd offsetDiv tiling (b # rest) =
     (case NewTiling smp mins maxs b sd offsetDiv of
        Inl err \<Rightarrow> if returned err then Inl (CouldNotCreateTiling tiling err) else Inl err
      | Inr t \<Rightarrow> bindE (New_loop smp mins maxs sd offsetDiv (Suc tiling) rest) (\<lambda>ts. Inr (t # ts)))"

definition New ::
  "sampler \<Rightarrow> float64 list \<Rightarrow> float64 list \<Rightarrow> int list list \<Rightarrow> 64 word \<Rightarrow> bool \<Rightarrow> float64
     \<Rightarrow> error + TileCoder" where
  "New smp mins maxs bss sd bias offsetDiv =
     bindE (New_loop smp mins maxs sd offsetDiv 0 bss)
       (\<lambda>ts. Inr \<lparr>tilings = ts, includeBias = bias\<rparr>)"

definition NumTilings :: "TileCoder \<Rightarrow> int" where
  "NumTilings t = int (length (tilings t))"

text \<open>
  \<^verbatim>\<open>featuresBeforeTiling(i)\<close>: the loop over \<open>j < i\<close>. The package calls it with the
  number of a tiling only, so every \<open>tilings t ! j\<close> it reads exists.
\<close>

definition featuresBeforeTiling :: "TileCoder \<Rightarrow> nat \<Rightarrow> int" where
  "featuresBeforeTiling t i =
     fold (\<lambda>j features. wrap64 (features + Tiles (tilings t ! j))) [0..<i] 0"

definition VecLength :: "TileCoder \<Rightarrow> int" where
  "VecLength t =
     (let baseVec = fold (\<lambda>i baseVec. wrap64 (baseVec + Tiles (tilings t ! i)))
                      [0..<length (tilings t)] 0
      in if includeBias t then wrap64 (baseVec + 1) else baseVec)"

text \<open>The \<^verbatim>\<open>bias\<close> of \<^verbatim>\<open>EncodeIndices\<close> and of \<^verbatim>\<open>encodeWithTiling\<close>: 1 with a bias unit, 0 without.\<close>

definition bias_of :: "TileCoder \<Rightarrow> int" where
  "bias_of t = (if includeBias t then 1 else 0)"

definition encodeWithTiling :: "TileCoder \<Rightarrow> float64 list \<Rightarrow> nat \<Rightarrow> error + int" where
  "encodeWithTiling t v tiling =
     (if length (tilings t) \<le> tiling then Inl ErrIndexOutOfRange
      else
        let indexOffset = featuresBeforeTiling t tiling in
        bindE (Index (tilings t ! tiling) v)
          (\<lambda>index. Inr (wrap64 (wrap64 (indexOffset + index) + bias_of t))))"

subsection \<open>EncodeIndices: one goroutine for each tiling, and a collector\<close>

text \<open>
  \<^verbatim>\<open>EncodeIndices\<close> starts one goroutine for each tiling, which sends
  \<^verbatim>\<open>encodeWithTiling(v, tiling)\<close> on the buffered channel \<^verbatim>\<open>t.indices\<close>, and one
  collector, which receives from that channel \<open>NumTilings\<close> times and stores the
  \<open>i\<close>-th value it receives in \<^verbatim>\<open>indices[i]\<close>. The scheduler decides in which order
  they run. A run is a list of events: \<open>Send tiling\<close> is the send of the goroutine of
  that tiling, \<open>Receive\<close> one iteration of the collector.

  The state of a run: the goroutines that have not sent yet, the content of the
  channel (first in, first out; its capacity \<open>NumTilings\<close> is never exceeded, since
  every goroutine sends once), the slice \<^verbatim>\<open>indices\<close>, and the loop variable of the
  collector.
\<close>

datatype event = Send nat | Receive

record run_state =
  waiting :: "nat list"
  channel :: "int list"
  indices :: "float64 list"
  collected :: nat

text \<open>
  \<open>run\<close> is \<open>None\<close> when an event cannot happen in the state it meets: a goroutine
  sends once, and the collector blocks on an empty channel and stops after
  \<open>NumTilings\<close> values. A goroutine that panics ends the program.
\<close>

fun run :: "TileCoder \<Rightarrow> float64 list \<Rightarrow> event list \<Rightarrow> run_state \<Rightarrow> (error + run_state) option" where
  "run t v [] s = Some (Inr s)"
| "run t v (Send tiling # es) s =
     (if tiling \<in> set (waiting s) then
        (case encodeWithTiling t v tiling of
           Inl e \<Rightarrow> Some (Inl e)
         | Inr index \<Rightarrow>
             run t v es (s\<lparr>waiting := remove1 tiling (waiting s),
                           channel := channel s @ [index]\<rparr>))
      else None)"
| "run t v (Receive # es) s =
     (if collected s < length (tilings t) then
        (case channel s of
           [] \<Rightarrow> None
         | index # rest \<Rightarrow>
             run t v es (s\<lparr>channel := rest,
                           indices := (indices s)[collected s := float64_of_int index],
                           collected := Suc (collected s)\<rparr>))
      else None)"

text \<open>
  The state in which \<^verbatim>\<open>EncodeIndices\<close> starts its goroutines: none has sent, the
  channel is empty, and the slice \<^verbatim>\<open>indices\<close> is made with \<open>NumTilings + bias\<close> zeros.
\<close>

definition run_start :: "TileCoder \<Rightarrow> run_state" where
  "run_start t =
     \<lparr>waiting = [0..<length (tilings t)], channel = [],
      indices = replicate (length (tilings t) + nat (bias_of t)) 0, collected = 0\<rparr>"

text \<open>
  \<^verbatim>\<open>EncodeIndices\<close> under the schedule \<open>sched\<close>. The caller writes \<open>0.0\<close> to the last
  slot of the slice when there is a bias unit, a slot no goroutine writes;
  \<^verbatim>\<open>t.wait.Wait()\<close> returns when every goroutine has sent and the collector has
  finished. The result is \<open>None\<close> when \<open>sched\<close> is not a complete run of the call.
\<close>

definition EncodeIndices ::
  "TileCoder \<Rightarrow> event list \<Rightarrow> float64 list \<Rightarrow> (error + float64 list) option" where
  "EncodeIndices t sched v =
     (case run t v sched (run_start t) of
        None \<Rightarrow> None
      | Some (Inl e) \<Rightarrow> Some (Inl e)
      | Some (Inr s) \<Rightarrow>
          if waiting s = [] \<and> collected s = length (tilings t)
          then Some (Inr (if includeBias t
                          then (indices s)[length (indices s) - 1 := 0]
                          else indices s))
          else None)"

text \<open>The schedule in which the goroutines send in the order of their tilings.\<close>

definition in_order :: "TileCoder \<Rightarrow> event list" where
  "in_order t = map Send [0..<length (tilings t)] @ replicate (length (tilings t)) Receive"

subsection \<open>Encode, ToVector, ToIndices\<close>

text \<open>
  The loop of \<^verbatim>\<open>Encode\<close> and of \<^verbatim>\<open>ToVector\<close>: \<^verbatim>\<open>tileCoded.SetVec(int(index), 1.0)\<close>
  for every index in turn.
\<close>

fun SetVec_each :: "float64 list \<Rightarrow> float64 list \<Rightarrow> error + float64 list" where
  "SetVec_each tileCoded [] = Inr tileCoded"
| "SetVec_each tileCoded (index # rest) =
     bindE (SetVec tileCoded (int_of_float index) 1) (\<lambda>tileCoded. SetVec_each tileCoded rest)"

definition Encode ::
  "TileCoder \<Rightarrow> event list \<Rightarrow> float64 list \<Rightarrow> (error + float64 list) option" where
  "Encode t sched v =
     (case NewVecDense (VecLength t) None of
        Inl e \<Rightarrow> Some (Inl e)
      | Inr tileCoded \<Rightarrow>
          (case EncodeIndices t sched v of
             None \<Rightarrow> None
           | Some (Inl e) \<Rightarrow> Some (Inl e)
           | Some (Inr idx) \<Rightarrow> Some (SetVec_each tileCoded idx)))"

definition ToVector :: "TileCoder \<Rightarrow> float64 list \<Rightarrow> error + float64 list" where
  "ToVector t v = bindE (NewVecDense (VecLength t) None) (\<lambda>tileCoded. SetVec_each tileCoded v)"

text \<open>
  The loop of \<^verbatim>\<open>ToIndices\<close> over the positions \<open>i\<close> of the vector, with the two tests
  of the source in their order: an entry different from \<open>0.0\<close> is appended, and an
  entry equal to \<open>0.0\<close> is then compared with \<open>1.0\<close>.
\<close>

fun ToIndices_loop :: "nat \<Rightarrow> float64 list \<Rightarrow> float64 list \<Rightarrow> error + float64 list" where
  "ToIndices_loop i [] idx = Inr idx"
| "ToIndices_loop i (x # rest) idx =
     (if x \<noteq> 0 then ToIndices_loop (Suc i) rest (idx @ [float64_of_int (int i)])
      else if x \<noteq> 1 then Inl InvalidEncodedVector
      else ToIndices_loop (Suc i) rest idx)"

definition ToIndices :: "TileCoder \<Rightarrow> float64 list \<Rightarrow> error + float64 list" where
  "ToIndices t v =
     bindE (ToIndices_loop 0 v []) (\<lambda>idx. NewVecDense (NumTilings t) (Some idx))"

subsection \<open>Valid tilings and tile coders\<close>

text \<open>
  A valid tiling: at least one dimension, one offset, bin length and lower bound for
  each dimension, positive bin counts of at most \<open>2 ^ 53\<close>, which \<^verbatim>\<open>float64\<close> holds
  exactly, positive bin lengths, and a number of tiles that a Go \<^verbatim>\<open>int\<close> holds.
\<close>

definition valid_tiling :: "Tiling \<Rightarrow> bool" where
  "valid_tiling t \<longleftrightarrow>
     bins t \<noteq> [] \<and>
     length (offsets t) = length (bins t) \<and>
     length (binLengths t) = length (bins t) \<and>
     length (minDims t) = length (bins t) \<and>
     list_all (\<lambda>b. 1 \<le> b) (bins t) \<and>
     list_all (\<lambda>b. b \<le> 2 ^ 53) (bins t) \<and>
     list_all (\<lambda>l. 0 < l) (binLengths t) \<and>
     prod_list (bins t) < 2 ^ 63"

text \<open>
  A valid tiling over the bounds \<open>mins\<close> and \<open>maxs\<close>, as \<open>NewTiling\<close> builds it: the
  lower bounds are below the upper bounds, the bin lengths are those of the
  constructor, and every offset lies within the bounds the constructor gives to the
  uniform distribution.
\<close>

definition tiling_over :: "float64 list \<Rightarrow> float64 list \<Rightarrow> Tiling \<Rightarrow> bool" where
  "tiling_over mins maxs t \<longleftrightarrow>
     valid_tiling t \<and> minDims t = mins \<and> length maxs = length mins \<and>
     list_all (\<lambda>i. mins ! i < maxs ! i \<and>
                    binLengths t ! i = binLength mins maxs (bins t) i \<and>
                    \<bar>offsets t ! i\<bar> \<le> binLengths t ! i / OffsetDiv)
       [0..<length mins]"

text \<open>
  A valid tile coder for vectors of \<open>d\<close> coordinates: valid tilings of \<open>d\<close>
  dimensions, and a number of features that a Go \<^verbatim>\<open>int\<close> holds.
\<close>

definition valid_coder :: "nat \<Rightarrow> TileCoder \<Rightarrow> bool" where
  "valid_coder d t \<longleftrightarrow>
     list_all (\<lambda>tg. valid_tiling tg \<and> length (bins tg) = d) (tilings t) \<and>
     sum_list (map (\<lambda>tg. prod_list (bins tg)) (tilings t)) + bias_of t < 2 ^ 63"



subsection \<open>The specification's index of a tile\<close>

text \<open>
  Row-major flattening, in the words of the specification: the tile along dimension
  \<open>i\<close> times the product of \<open>bins ! j\<close> for all \<open>j > i\<close>, summed over the dimensions.
\<close>

definition rowMajorIndex :: "Tiling \<Rightarrow> float64 list \<Rightarrow> int" where
  "rowMajorIndex t v =
     (\<Sum>i\<leftarrow>[0..<length (bins t)]. tileIndex t v i * prod_list (drop (Suc i) (bins t)))"

subsection \<open>Example inputs\<close>

text \<open>
  A sampler for the examples: the point of each interval at the fraction
  \<open>(seed mod 8) / 8\<close> of its length.
\<close>

definition ex_sampler :: sampler where
  "ex_sampler sd bounds =
     map (\<lambda>b. fst b + (snd b - fst b) * (real (unat sd mod 8) / 8)) bounds"

text \<open>
  The tile coder of \<^verbatim>\<open>TestBatch\<close>: bounds \<open>[0, 5]\<close> in two dimensions, a tiling of
  2 x 3 and one of 2 x 2 tiles, seed 1 and a bias unit.
\<close>

definition test_tiling0 :: Tiling where
  "test_tiling0 = \<lparr>offsets = [- (5 / 4), - (5 / 6)], bins = [2, 3], binLengths = [5 / 2, 5 / 3],
                    minDims = [0, 0], seed = 1\<rparr>"

definition test_tiling1 :: Tiling where
  "test_tiling1 = \<lparr>offsets = [- (5 / 4), - (5 / 4)], bins = [2, 2], binLengths = [5 / 2, 5 / 2],
                    minDims = [0, 0], seed = 1\<rparr>"

definition test_coder :: TileCoder where
  "test_coder = \<lparr>tilings = [test_tiling0, test_tiling1], includeBias = True\<rparr>"

text \<open>A tiling of 2 x 2 x 2 tiles over \<open>[0, 2]\<close> in three dimensions, seed 1.\<close>

definition cube_tiling :: Tiling where
  "cube_tiling = \<lparr>offsets = [- (1 / 2), - (1 / 2), - (1 / 2)], bins = [2, 2, 2],
                   binLengths = [1, 1, 1], minDims = [0, 0, 0], seed = 1\<rparr>"

text \<open>A tiling of two tiles over \<open>[0, 2]\<close> in one dimension, seed 1, and its tile coder without bias.\<close>

definition line_tiling :: Tiling where
  "line_tiling = \<lparr>offsets = [- (1 / 2)], bins = [2], binLengths = [1], minDims = [0], seed = 1\<rparr>"

definition line_coder :: TileCoder where
  "line_coder = \<lparr>tilings = [line_tiling], includeBias = False\<rparr>"

text \<open>A batch of two samples of one coordinate each: a matrix of one row and two columns.\<close>

definition line_batch :: Dense where
  "line_batch = \<lparr>Rows = 1, Cols = 2, Data = [3 / 4, 7 / 4]\<rparr>"


text \<open>
  A tile coder of \<open>2 ^ 53 + 3\<close> features: bounds \<open>[0, 2 ^ 53]\<close> and \<open>[0, 1]\<close>, a tiling of
  \<open>2 ^ 53\<close> x 1 and one of 1 x 2 tiles, seed 4 and a bias unit.
\<close>

definition huge_tiling0 :: Tiling where
  "huge_tiling0 = \<lparr>offsets = [0, 0], bins = [2 ^ 53, 1], binLengths = [1, 1],
                    minDims = [0, 0], seed = 4\<rparr>"

definition huge_tiling1 :: Tiling where
  "huge_tiling1 = \<lparr>offsets = [0, 0], bins = [1, 2], binLengths = [2 ^ 53, 1 / 2],
                    minDims = [0, 0], seed = 4\<rparr>"

definition huge_coder :: TileCoder where
  "huge_coder = \<lparr>tilings = [huge_tiling0, huge_tiling1], includeBias = True\<rparr>"


section \<open>Properties\<close>

subsection \<open>Conversions between integers and floats\<close>

lemma float64_of_int_small: "\<bar>x\<bar> < 2 ^ 53 \<Longrightarrow> float64_of_int x = real_of_int x"
proof -
  assume a: "\<bar>x\<bar> < 2 ^ 53"
  have "\<not> (2::int) ^ (53 + j) \<le> \<bar>x\<bar>" for j
  proof -
    have "(2::int) ^ 53 \<le> 2 ^ (53 + j)" by (rule power_increasing) simp_all
    with a show ?thesis by linarith
  qed
  then have "filter (\<lambda>j. 2 ^ (53 + j) \<le> \<bar>x\<bar>) [0..<11] = []" by simp
  moreover have "sgn x * \<bar>x\<bar> = x" by (rule mult_sgn_abs)
  ultimately show ?thesis by (simp add: float64_of_int_def Let_def del: of_int_mult)
qed

lemma float64_of_int_pow53: "float64_of_int (2 ^ 53) = 2 ^ 53" "float64_of_int (- (2 ^ 53)) = - (2 ^ 53)"
  by code_simp+

lemma float64_of_int_exact: "\<bar>x\<bar> \<le> 2 ^ 53 \<Longrightarrow> float64_of_int x = real_of_int x"
proof -
  assume "\<bar>x\<bar> \<le> 2 ^ 53"
  then consider "\<bar>x\<bar> < 2 ^ 53" | "x = 2 ^ 53" | "x = - (2 ^ 53)" by linarith
  then show ?thesis
    by cases (use float64_of_int_pow53 in \<open>simp_all add: float64_of_int_small\<close>)
qed

lemma int_of_float_of_int:
  "- (2 ^ 63) \<le> z \<Longrightarrow> z < 2 ^ 63 \<Longrightarrow> int_of_float (real_of_int z) = z"
  by (simp add: int_of_float_def)

subsection \<open>The examples are built by the constructors\<close>

lemma New_test_coder:
  "New ex_sampler [0, 0] [5, 5] [[2, 3], [2, 2]] 1 True OffsetDiv = Inr test_coder"
  by (simp add: New_def NewTiling_def NewTiling_bounds_def binLength_def OffsetDiv_def
      ex_sampler_def bindE_def test_coder_def test_tiling0_def test_tiling1_def Let_def
      float64_of_int_small upt_rec [of 0] upt_rec [of 1])

lemma NewTiling_cube_tiling:
  "NewTiling ex_sampler [0, 0, 0] [2, 2, 2] [2, 2, 2] 1 OffsetDiv = Inr cube_tiling"
  by (simp add: NewTiling_def NewTiling_bounds_def binLength_def OffsetDiv_def
      ex_sampler_def cube_tiling_def Let_def float64_of_int_small
      upt_rec [of 0] upt_rec [of 1] upt_rec [of 2])

lemma New_line_coder:
  "New ex_sampler [0] [2] [[2]] 1 False OffsetDiv = Inr line_coder"
  by (simp add: New_def NewTiling_def NewTiling_bounds_def binLength_def OffsetDiv_def
      ex_sampler_def bindE_def line_coder_def line_tiling_def Let_def float64_of_int_small
      upt_rec [of 0])

subsection \<open>Arithmetic without wrap-around\<close>

lemma wrap64_id: "- (2 ^ 63) \<le> x \<Longrightarrow> x < 2 ^ 63 \<Longrightarrow> wrap64 x = x"
  unfolding wrap64_def by (simp add: mod_pos_pos_trivial)

lemma Clip_of_int:
  "Clip (real_of_int z) 0 (real_of_int m) = real_of_int (if z < 0 then 0 else if z > m then m else z)"
  by (simp add: Clip_def)

text \<open>
  The bounds of a tile come from the clip alone: they hold for every quotient that
  the tile is the floor of.
\<close>

lemma Clip_tile_range:
  assumes "1 \<le> b" "b \<le> 2 ^ 53"
  shows "0 \<le> int_of_float (Clip q 0 (float64_of_int (wrap64 (b - 1)))) \<and>
         int_of_float (Clip q 0 (float64_of_int (wrap64 (b - 1)))) \<le> b - 1"
proof -
  have w: "wrap64 (b - 1) = b - 1"
    using assms by (intro wrap64_id) auto
  have f: "float64_of_int (b - 1) = real_of_int (b - 1)"
    using assms by (intro float64_of_int_exact) auto
  define c where "c = Clip q 0 (real_of_int (b - 1))"
  have c: "0 \<le> c" "c \<le> real_of_int (b - 1)"
    using assms(1) by (auto simp: c_def Clip_def)
  define z where "z = \<lfloor>c\<rfloor>"
  have "\<lfloor>c\<rfloor> \<le> \<lfloor>real_of_int (b - 1)\<rfloor>" using c(2) by (rule floor_mono)
  then have z1: "z \<le> b - 1" by (simp only: floor_of_int z_def)
  have z0: "0 \<le> z" using c(1) by (simp add: z_def)
  have "int_of_float c = (if - (2 ^ 63) \<le> z \<and> z < 2 ^ 63 then z else - (2 ^ 63))"
    using c(1) by (simp only: int_of_float_def Let_def z_def if_True)
  also have "\<dots> = z" using z0 z1 assms(2) by simp
  finally show ?thesis
    unfolding w f c_def [symmetric] using z0 z1 by simp
qed

lemma tileIndex_eq:
  assumes "1 \<le> bins t ! i" "bins t ! i \<le> 2 ^ 53"
  shows "tileIndex t v i =
    (let z = \<lfloor>(v ! i + offsets t ! i - minDims t ! i) / binLengths t ! i\<rfloor>
     in if z < 0 then 0 else if z > bins t ! i - 1 then bins t ! i - 1 else z)"
proof -
  define z where "z = \<lfloor>(v ! i + offsets t ! i - minDims t ! i) / binLengths t ! i\<rfloor>"
  define c where "c = (if z < 0 then 0 else if z > bins t ! i - 1 then bins t ! i - 1 else z)"
  have w: "wrap64 (bins t ! i - 1) = bins t ! i - 1"
    using assms by (intro wrap64_id) auto
  have f: "float64_of_int (bins t ! i - 1) = real_of_int (bins t ! i - 1)"
    using assms by (intro float64_of_int_exact) auto
  have "0 \<le> c" "c \<le> bins t ! i - 1" using assms(1) by (auto simp: c_def)
  then have "- (2 ^ 63) \<le> c" "c < 2 ^ 63" using assms(2) by auto
  then have "int_of_float (real_of_int c) = c" by (rule int_of_float_of_int)
  then have "int_of_float (Clip (real_of_int z) 0 (real_of_int (bins t ! i - 1))) = c"
    by (simp only: Clip_of_int c_def)
  then show ?thesis
    unfolding tileIndex_def Let_def w f z_def [symmetric] c_def .
qed

lemma tileIndex_bounds:
  assumes "1 \<le> bins t ! i" "bins t ! i \<le> 2 ^ 53"
  shows "0 \<le> tileIndex t v i \<and> tileIndex t v i \<le> bins t ! i - 1"
  using assms by (simp add: tileIndex_eq Let_def)

lemma prod_list_ge1: "list_all (\<lambda>b. 1 \<le> b) bs \<Longrightarrow> (1::int) \<le> prod_list bs"
proof (induction bs)
  case Nil then show ?case by simp
next
  case (Cons a bs)
  then have "1 \<le> a" "1 \<le> prod_list bs" by simp_all
  then have "1 * 1 \<le> a * prod_list bs" by (intro mult_mono) auto
  then show ?case by simp
qed

lemma prod_list_drop_le:
  "list_all (\<lambda>b. 1 \<le> b) bs \<Longrightarrow> prod_list (drop k bs) \<le> (prod_list bs :: int)"
proof (induction bs arbitrary: k)
  case Nil then show ?case by simp
next
  case (Cons a bs)
  show ?case
  proof (cases k)
    case 0 then show ?thesis by simp
  next
    case (Suc j)
    from Cons have a: "1 \<le> a" and all: "list_all (\<lambda>b. 1 \<le> b) bs" by simp_all
    have "prod_list (drop j bs) \<le> prod_list bs" using Cons.IH [OF all] .
    moreover have "1 \<le> prod_list bs" using all by (rule prod_list_ge1)
    ultimately have "prod_list (drop j bs) \<le> a * prod_list bs"
      using a by (smt (verit) mult_le_cancel_right1)
    then show ?thesis using Suc by simp
  qed
qed

lemma nth_le_prod_list:
  "list_all (\<lambda>b. 1 \<le> b) bs \<Longrightarrow> i < length bs \<Longrightarrow> bs ! i \<le> (prod_list bs :: int)"
proof (induction bs arbitrary: i)
  case Nil then show ?case by simp
next
  case (Cons a bs)
  from Cons.prems have a: "1 \<le> a" and all: "list_all (\<lambda>b. 1 \<le> b) bs" by simp_all
  have p: "1 \<le> prod_list bs" using all by (rule prod_list_ge1)
  show ?case
  proof (cases i)
    case 0
    have "a * 1 \<le> a * prod_list bs" using a p by (intro mult_left_mono) auto
    then show ?thesis using 0 by simp
  next
    case (Suc j)
    then have "bs ! j \<le> prod_list bs" using Cons.IH [OF all] Cons.prems by simp
    moreover have "1 * prod_list bs \<le> a * prod_list bs" using a p by (intro mult_right_mono) auto
    ultimately show ?thesis using Suc by simp
  qed
qed

lemma prod_int_fold:
  "list_all (\<lambda>b. 1 \<le> b) bs \<Longrightarrow> 1 \<le> p \<Longrightarrow> p * prod_list bs < 2 ^ 63 \<Longrightarrow>
   fold (\<lambda>v p. wrap64 (p * v)) bs p = p * prod_list bs"
proof (induction bs arbitrary: p)
  case Nil then show ?case by simp
next
  case (Cons a bs)
  from Cons.prems have a: "1 \<le> a" and all: "list_all (\<lambda>b. 1 \<le> b) bs" by simp_all
  have pl: "1 \<le> prod_list bs" using all by (rule prod_list_ge1)
  have "1 * 1 \<le> p * a" using a Cons.prems(2) by (intro mult_mono) auto
  then have pa: "1 \<le> p * a" by simp
  have "(p * a) * 1 \<le> (p * a) * prod_list bs" using pa pl by (intro mult_left_mono) auto
  then have lt: "p * a < 2 ^ 63" using Cons.prems(3) by (simp add: mult.assoc)
  have w: "wrap64 (p * a) = p * a" using pa lt by (intro wrap64_id) auto
  have "fold (\<lambda>v p. wrap64 (p * v)) bs (p * a) = (p * a) * prod_list bs"
    using Cons.IH [OF all pa] Cons.prems(3) by (simp add: mult.assoc)
  then show ?case by (simp add: w mult.assoc)
qed

lemma prod_int_exact:
  "list_all (\<lambda>b. 1 \<le> b) bs \<Longrightarrow> prod_list bs < 2 ^ 63 \<Longrightarrow> prod_int bs = prod_list bs"
  unfolding prod_int_def using prod_int_fold [of bs 1] by simp

lemma Index_loop_exact:
  assumes all: "list_all (\<lambda>b. 1 \<le> b) (bins t)"
    and le53: "list_all (\<lambda>b. b \<le> 2 ^ 53) (bins t)"
    and fit: "prod_list (bins t) < 2 ^ 63"
    and lens: "length (bins t) \<le> length v" "length (bins t) \<le> length (offsets t)"
      "length (bins t) \<le> length (minDims t)" "length (bins t) \<le> length (binLengths t)"
  shows "k \<le> length (bins t) \<Longrightarrow> 0 \<le> acc \<Longrightarrow> acc \<le> prod_list (drop k (bins t)) - 1 \<Longrightarrow>
    \<exists>r. Index_loop t v k acc = Inr r \<and> 0 \<le> r \<and> r \<le> prod_list (bins t) - 1 \<and>
      r = acc + (\<Sum>i<k. tileIndex t v i * (if Suc i = length (bins t) then 1 else bins t ! (i + 1)))"
proof (induction k arbitrary: acc)
  case 0
  then show ?case by simp
next
  case (Suc i)
  let ?bs = "bins t"
  let ?n = "length ?bs"
  from Suc.prems have i: "i < ?n" by simp
  have bi: "1 \<le> ?bs ! i" using all i by (simp add: list_all_length)
  have bi_le: "?bs ! i \<le> 2 ^ 53" using le53 i by (simp add: list_all_length)
  have tb: "0 \<le> tileIndex t v i" "tileIndex t v i \<le> ?bs ! i - 1"
    using tileIndex_bounds [of t i v] bi bi_le by simp_all
  have all_drop: "list_all (\<lambda>b. 1 \<le> b) (drop (Suc i) ?bs)"
    using all by (auto simp: list_all_iff dest: in_set_dropD)
  have pd: "1 \<le> prod_list (drop (Suc i) ?bs)" using all_drop by (rule prod_list_ge1)
  have split: "prod_list (drop i ?bs) = ?bs ! i * prod_list (drop (Suc i) ?bs)"
    using i by (simp add: Cons_nth_drop_Suc [symmetric])
  define stride where "stride = (if Suc i = ?n then 1 else ?bs ! (i + 1))"
  have s0: "1 \<le> stride"
    using all i by (auto simp: stride_def list_all_length)
  have s1: "stride \<le> prod_list (drop (Suc i) ?bs)"
  proof (cases "Suc i = ?n")
    case True then show ?thesis by (simp add: stride_def)
  next
    case False
    then have "Suc i < ?n" using i by simp
    then have "drop (Suc i) ?bs ! 0 \<le> prod_list (drop (Suc i) ?bs)"
      using all_drop by (intro nth_le_prod_list) auto
    then show ?thesis using False \<open>Suc i < ?n\<close> by (simp add: stride_def)
  qed
  define acc' where "acc' = acc + tileIndex t v i * stride"
  have t0: "0 \<le> tileIndex t v i * stride" using tb s0 by simp
  have "tileIndex t v i * stride \<le> (?bs ! i - 1) * prod_list (drop (Suc i) ?bs)"
    using tb s0 s1 by (intro mult_mono) auto
  then have up: "acc' \<le> prod_list (drop i ?bs) - 1"
    using Suc.prems(3) by (simp add: acc'_def split algebra_simps)
  have "prod_list (drop i ?bs) \<le> prod_list ?bs" using all by (rule prod_list_drop_le)
  then have lt: "acc' < 2 ^ 63" using up fit by simp
  have a0: "0 \<le> acc'" using Suc.prems(2) t0 by (simp add: acc'_def)
  have w1: "wrap64 (tileIndex t v i * stride) = tileIndex t v i * stride"
    using t0 lt Suc.prems(2) by (intro wrap64_id) (auto simp: acc'_def)
  have w2: "wrap64 acc' = acc'" using a0 lt by (intro wrap64_id) auto
  have step: "Index_loop t v (Suc i) acc = Index_loop t v i acc'"
    using i lens w1 w2 by (auto simp: acc'_def stride_def)
  have "\<exists>r. Index_loop t v i acc' = Inr r \<and> 0 \<le> r \<and> r \<le> prod_list ?bs - 1 \<and>
      r = acc' + (\<Sum>i<i. tileIndex t v i * (if Suc i = ?n then 1 else ?bs ! (i + 1)))"
    using Suc.IH [of acc'] i a0 up by simp
  then obtain r where r: "Index_loop t v i acc' = Inr r" "0 \<le> r" "r \<le> prod_list ?bs - 1"
    and rs: "r = acc' + (\<Sum>i<i. tileIndex t v i * (if Suc i = ?n then 1 else ?bs ! (i + 1)))"
    by blast
  have "r = acc + (\<Sum>i<Suc i. tileIndex t v i * (if Suc i = ?n then 1 else ?bs ! (i + 1)))"
    unfolding rs acc'_def stride_def by simp
  with r show ?case by (simp only: step) blast
qed

lemma Index_sum:
  assumes "valid_tiling t" "length (bins t) \<le> length v"
  shows "\<exists>r. Index t v = Inr r \<and> 0 \<le> r \<and> r \<le> Tiles t - 1 \<and>
    r = (\<Sum>i<length (bins t). tileIndex t v i * (if Suc i = length (bins t) then 1 else bins t ! (i + 1)))"
proof -
  from assms(1) have all: "list_all (\<lambda>b. 1 \<le> b) (bins t)"
    and le53: "list_all (\<lambda>b. b \<le> 2 ^ 53) (bins t)"
    and fit: "prod_list (bins t) < 2 ^ 63"
    and lens: "length (bins t) \<le> length (offsets t)" "length (bins t) \<le> length (minDims t)"
      "length (bins t) \<le> length (binLengths t)"
    by (simp_all add: valid_tiling_def)
  have "\<exists>r. Index_loop t v (length (bins t)) 0 = Inr r \<and> 0 \<le> r \<and> r \<le> prod_list (bins t) - 1 \<and>
      r = 0 + (\<Sum>i<length (bins t). tileIndex t v i * (if Suc i = length (bins t) then 1 else bins t ! (i + 1)))"
    using all le53 fit assms(2) lens
  proof (rule Index_loop_exact)
    show "0 \<le> prod_list (drop (length (bins t)) (bins t)) - 1" by simp
  qed simp_all
  then show ?thesis
    by (simp add: Index_def Tiles_def prod_int_exact [OF all fit])
qed


subsection \<open>Tiles at the boundary\<close>

lemma tileIndex_top:
  assumes b: "1 \<le> bins t ! i" "bins t ! i \<le> 2 ^ 53"
    and L: "0 < binLengths t ! i"
    and ge: "real_of_int (bins t ! i - 1) * binLengths t ! i \<le> v ! i + offsets t ! i - minDims t ! i"
  shows "tileIndex t v i = bins t ! i - 1"
proof -
  have "real_of_int (bins t ! i - 1) \<le> (v ! i + offsets t ! i - minDims t ! i) / binLengths t ! i"
    using L ge by (simp add: le_divide_eq)
  then have "bins t ! i - 1 \<le> \<lfloor>(v ! i + offsets t ! i - minDims t ! i) / binLengths t ! i\<rfloor>"
    by (simp only: le_floor_iff)
  moreover define z where "z = \<lfloor>(v ! i + offsets t ! i - minDims t ! i) / binLengths t ! i\<rfloor>"
  ultimately have "bins t ! i - 1 \<le> z" by simp
  moreover have "tileIndex t v i = (if z < 0 then 0 else if z > bins t ! i - 1 then bins t ! i - 1 else z)"
    using b unfolding z_def by (simp only: tileIndex_eq Let_def)
  ultimately show ?thesis using b(1) by (simp split: if_splits)
qed

lemma tileIndex_bottom:
  assumes b: "1 \<le> bins t ! i" "bins t ! i \<le> 2 ^ 53"
    and L: "0 < binLengths t ! i"
    and lt: "v ! i + offsets t ! i - minDims t ! i < binLengths t ! i"
  shows "tileIndex t v i = 0"
proof -
  have "(v ! i + offsets t ! i - minDims t ! i) / binLengths t ! i < 1"
    using L lt by (simp add: divide_less_eq)
  then have "\<lfloor>(v ! i + offsets t ! i - minDims t ! i) / binLengths t ! i\<rfloor> < 1"
    by (simp add: floor_less_iff)
  moreover define z where "z = \<lfloor>(v ! i + offsets t ! i - minDims t ! i) / binLengths t ! i\<rfloor>"
  ultimately have "z < 1" by simp
  moreover have "tileIndex t v i = (if z < 0 then 0 else if z > bins t ! i - 1 then bins t ! i - 1 else z)"
    using b unfolding z_def by (simp only: tileIndex_eq Let_def)
  ultimately show ?thesis using b(1) by (simp split: if_splits)
qed


text \<open>
  In the arithmetic of the real numbers, the offsets that the constructor draws are
  shorter than a bin, and so a coordinate at a bound itself is in the boundary tile.
\<close>

lemma tileIndex_clamps:
  assumes over: "tiling_over mins maxs t" and i: "i < length mins"
  shows "(maxs ! i \<le> v ! i \<longrightarrow> tileIndex t v i = bins t ! i - 1) \<and>
         (v ! i \<le> mins ! i \<longrightarrow> tileIndex t v i = 0)"
proof -
  from over have vt: "valid_tiling t" and m: "minDims t = mins"
    and pw: "list_all (\<lambda>i. mins ! i < maxs ! i \<and>
                    binLengths t ! i = binLength mins maxs (bins t) i \<and>
                    \<bar>offsets t ! i\<bar> \<le> binLengths t ! i / OffsetDiv) [0..<length mins]"
    by (simp_all add: tiling_over_def)
  from vt m have n: "length (bins t) = length mins" by (simp add: valid_tiling_def)
  from vt have all: "list_all (\<lambda>b. 1 \<le> b) (bins t)"
    and le53: "list_all (\<lambda>b. b \<le> 2 ^ 53) (bins t)"
    and pos: "list_all (\<lambda>l. 0 < l) (binLengths t)" and nl: "length (binLengths t) = length (bins t)"
    by (simp_all add: valid_tiling_def)
  let ?b = "bins t ! i" and ?L = "binLengths t ! i" and ?o = "offsets t ! i"
  have b1: "1 \<le> ?b" using all i n by (simp add: list_all_length)
  have b2: "?b \<le> 2 ^ 53" using le53 i n by (simp add: list_all_length)
  have L: "0 < ?L" using pos i n nl by (simp add: list_all_length)
  from pw i have lt: "mins ! i < maxs ! i"
    and Leq: "?L = binLength mins maxs (bins t) i"
    and off: "\<bar>?o\<bar> \<le> ?L / OffsetDiv"
    by (auto simp: list_all_length)
  have fb: "float64_of_int ?b = real_of_int ?b"
    using b1 b2 by (intro float64_of_int_exact) auto
  have width: "real_of_int ?b * ?L = maxs ! i - mins ! i"
    using b1 by (simp add: Leq binLength_def fb)
  have "?L / OffsetDiv < ?L" using L by (simp add: OffsetDiv_def)
  with off have o1: "- ?L < ?o" and o2: "?o < ?L" by linarith+
  show ?thesis
  proof (intro conjI impI)
    assume "maxs ! i \<le> v ! i"
    then have "real_of_int (?b - 1) * ?L \<le> v ! i + ?o - minDims t ! i"
      using width o1 by (simp add: m algebra_simps)
    with b1 b2 L show "tileIndex t v i = ?b - 1" by (rule tileIndex_top)
  next
    assume "v ! i \<le> mins ! i"
    then have "v ! i + ?o - minDims t ! i < ?L" using o2 by (simp add: m)
    with b1 b2 L show "tileIndex t v i = 0" by (rule tileIndex_bottom)
  qed
qed

lemma NewTiling_tiling_over:
  assumes new: "NewTiling smp mins maxs bs sd od = Inr t"
    and all: "list_all (\<lambda>b. 1 \<le> b) bs" and le53: "list_all (\<lambda>b. b \<le> 2 ^ 53) bs"
    and fit: "prod_list bs < 2 ^ 63"
    and lt: "list_all (\<lambda>i. mins ! i < maxs ! i) [0..<length mins]"
    and len: "length (smp sd (NewTiling_bounds mins maxs bs od)) = length mins"
    and smp: "list_all (\<lambda>i. fst (NewTiling_bounds mins maxs bs od ! i) \<le> smp sd (NewTiling_bounds mins maxs bs od) ! i
                \<and> smp sd (NewTiling_bounds mins maxs bs od) ! i \<le> snd (NewTiling_bounds mins maxs bs od ! i))
              [0..<length mins]"
  shows "tiling_over mins maxs t"
proof -
  let ?bnds = "NewTiling_bounds mins maxs bs od"
  from new have l1: "length mins = length maxs" and ne: "bs \<noteq> []" and l2: "length bs = length mins"
    and t: "t = \<lparr>offsets = smp sd ?bnds, bins = bs,
              binLengths = map (binLength mins maxs bs) [0..<length mins], minDims = mins, seed = sd\<rparr>"
    by (auto simp: NewTiling_def Let_def split: if_splits)
  have Lpos: "0 < binLength mins maxs bs i" if "i < length mins" for i
  proof -
    have "1 \<le> bs ! i" "bs ! i \<le> 2 ^ 53" using all le53 that l2 by (simp_all add: list_all_length)
    then have "float64_of_int (bs ! i) = real_of_int (bs ! i)" "0 < real_of_int (bs ! i)"
      by (simp_all add: float64_of_int_exact)
    moreover have "mins ! i < maxs ! i" using lt that by (simp add: list_all_length)
    ultimately show ?thesis by (simp add: binLength_def)
  qed
  have vt: "valid_tiling t"
    using ne l2 len all le53 fit Lpos by (simp add: valid_tiling_def t list_all_length)
  have off: "\<bar>smp sd ?bnds ! i\<bar> \<le> binLength mins maxs bs i / OffsetDiv" if "i < length mins" for i
  proof -
    have "?bnds ! i = (- (binLength mins maxs bs i / OffsetDiv), binLength mins maxs bs i / OffsetDiv)"
      using that by (simp add: NewTiling_bounds_def Let_def)
    moreover have "fst (?bnds ! i) \<le> smp sd ?bnds ! i \<and> smp sd ?bnds ! i \<le> snd (?bnds ! i)"
      using smp that by (auto simp: list_all_length)
    ultimately show ?thesis by (simp add: abs_le_iff minus_le_iff)
  qed
  show ?thesis
    using vt l1 lt off by (simp add: tiling_over_def t list_all_length)
qed





subsection \<open>The range of Index\<close>




subsection \<open>Clamping\<close>





subsection \<open>Features before a tiling\<close>














subsection \<open>Runs of EncodeIndices\<close>








text \<open>
  A run has at most \<open>2 * NumTilings\<close> events, and a run that is not complete can go on:
  the call cannot block or go on forever, whatever the scheduler does.
\<close>

lemma run_append:
  "run t v (es @ es') s =
     (case run t v es s of None \<Rightarrow> None | Some (Inl e) \<Rightarrow> Some (Inl e) | Some (Inr s') \<Rightarrow> run t v es' s')"
proof (induction es arbitrary: s)
  case Nil
  show ?case by simp
next
  case (Cons e es)
  show ?case
  proof (cases e)
    case (Send j)
    then show ?thesis using Cons.IH by (simp split: sum.splits)
  next
    case Receive
    then show ?thesis using Cons.IH by (simp split: list.splits)
  qed
qed

lemma run_measure:
  "run t v es s = Some (Inr s') \<Longrightarrow>
     length es + 2 * length (waiting s') + length (channel s') = 2 * length (waiting s) + length (channel s) \<and>
     length (waiting s') + length (channel s') + collected s' = length (waiting s) + length (channel s) + collected s"
proof (induction es arbitrary: s)
  case Nil
  then show ?case by simp
next
  case (Cons e es)
  show ?case
  proof (cases e)
    case (Send j)
    with Cons.prems obtain x where j: "j \<in> set (waiting s)"
      and r: "run t v es (s\<lparr>waiting := remove1 j (waiting s), channel := channel s @ [x]\<rparr>) = Some (Inr s')"
      by (auto split: if_splits sum.splits)
    from j have "length (waiting s) = Suc (length (remove1 j (waiting s)))"
      by (simp add: length_remove1) (metis Suc_pred length_pos_if_in_set)
    with Cons.IH [OF r] show ?thesis by simp
  next
    case Receive
    with Cons.prems obtain x rest where c: "channel s = x # rest"
      and r: "run t v es (s\<lparr>channel := rest,
                  indices := (indices s)[collected s := float64_of_int x],
                  collected := Suc (collected s)\<rparr>) = Some (Inr s')"
      by (auto split: if_splits list.splits)
    with Cons.IH [OF r] show ?thesis by simp
  qed
qed


lemma run_progress:
  assumes "run t v es (run_start t) = Some (Inr s)"
  shows "(waiting s = [] \<and> collected s = length (tilings t)) \<or>
         (\<exists>e. run t v (es @ [e]) (run_start t) \<noteq> None)"
proof (cases "waiting s")
  case (Cons j js)
  then have "run t v [Send j] s \<noteq> None" by (simp split: sum.splits)
  then have "run t v (es @ [Send j]) (run_start t) \<noteq> None"
    by (simp add: run_append assms)
  then show ?thesis by blast
next
  case Nil
  from run_measure [OF assms] Nil
  have inv: "length (channel s) + collected s = length (tilings t)"
    by (simp add: run_start_def)
  show ?thesis
  proof (cases "channel s")
    case Nil
    with inv \<open>waiting s = []\<close> show ?thesis by simp
  next
    case (Cons x rest)
    with inv have "collected s < length (tilings t)" by simp
    with Cons have "run t v [Receive] s \<noteq> None" by simp
    then have "run t v (es @ [Receive]) (run_start t) \<noteq> None"
      by (simp add: run_append assms)
    then show ?thesis by blast
  qed
qed









subsection \<open>Distinct indices and the encoded vector\<close>





lemma Encode_ToVector:
  "EncodeIndices t sched v = Some (Inr idx) \<Longrightarrow> Encode t sched v = Some (ToVector t idx)"
  by (simp add: Encode_def ToVector_def bindE_def split: sum.splits)


subsection \<open>What the constructors build\<close>

text \<open>
  With bin counts between 1 and \<open>2 ^ 53\<close>, lower bounds below the upper bounds, a number
  of features below \<open>2 ^ 63\<close> and a sampler that stays within the bounds it is given, \<open>New\<close>
  builds a valid tile coder of valid tilings over the bounds.
\<close>

lemma New_loop_Inr:
  "New_loop smp mins maxs sd od n bss = Inr ts \<Longrightarrow>
     length ts = length bss \<and>
     (\<forall>i<length bss. NewTiling smp mins maxs (bss ! i) sd od = Inr (ts ! i))"
proof (induction bss arbitrary: n ts)
  case Nil
  then show ?case by simp
next
  case (Cons b bss)
  from Cons.prems obtain t ts' where t: "NewTiling smp mins maxs b sd od = Inr t"
    and r: "New_loop smp mins maxs sd od (Suc n) bss = Inr ts'" and ts: "ts = t # ts'"
    by (auto simp: bindE_def split: sum.splits if_splits)
  from Cons.IH [OF r] have l: "length ts' = length bss"
    and a: "\<forall>i<length bss. NewTiling smp mins maxs (bss ! i) sd od = Inr (ts' ! i)" by simp_all
  have "NewTiling smp mins maxs ((b # bss) ! i) sd od = Inr (ts ! i)" if "i < length (b # bss)" for i
    using that t a ts by (cases i) simp_all
  with l ts show ?case by simp
qed

lemma NewTiling_bins:
  "NewTiling smp mins maxs bs sd od = Inr t \<Longrightarrow> bins t = bs \<and> length bs = length mins"
  by (auto simp: NewTiling_def Let_def split: if_splits)

lemma prod_list_le_sum_list:
  assumes "list_all (\<lambda>bs. list_all (\<lambda>b. 1 \<le> b) bs) bss" "i < length bss"
  shows "prod_list (bss ! i) \<le> (sum_list (map prod_list bss) :: int)"
  using assms
proof (induction bss arbitrary: i)
  case Nil
  then show ?case by simp
next
  case (Cons bs bss)
  from Cons.prems(1) have h: "list_all (\<lambda>b. 1 \<le> b) bs"
    and t: "list_all (\<lambda>bs. list_all (\<lambda>b. 1 \<le> b) bs) bss" by simp_all
  have p: "1 \<le> prod_list bs" using h by (rule prod_list_ge1)
  have s: "0 \<le> sum_list (map prod_list bss)"
  proof (rule sum_list_nonneg)
    fix x assume "x \<in> set (map prod_list bss)"
    then obtain cs where "cs \<in> set bss" "x = prod_list cs" by auto
    with t have "1 \<le> x" by (auto simp: list_all_iff intro: prod_list_ge1)
    then show "0 \<le> x" by simp
  qed
  show ?case
  proof (cases i)
    case 0
    with s show ?thesis by simp
  next
    case (Suc j)
    with Cons.prems(2) have "prod_list (bss ! j) \<le> sum_list (map prod_list bss)"
      using Cons.IH [OF t] by simp
    with p Suc show ?thesis by simp
  qed
qed

lemma New_valid_coder:
  assumes new: "New smp mins maxs bss sd bias od = Inr t"
    and pos: "list_all (\<lambda>bs. list_all (\<lambda>b. 1 \<le> b) bs) bss"
    and le53: "list_all (\<lambda>bs. list_all (\<lambda>b. b \<le> 2 ^ 53) bs) bss"
    and lt: "list_all (\<lambda>i. mins ! i < maxs ! i) [0..<length mins]"
    and fit: "sum_list (map prod_list bss) + (if bias then 1 else 0) < 2 ^ 63"
    and smp: "\<And>bnds. length (smp sd bnds) = length bnds \<and>
        (\<forall>i<length bnds. fst (bnds ! i) \<le> snd (bnds ! i) \<longrightarrow>
            fst (bnds ! i) \<le> smp sd bnds ! i \<and> smp sd bnds ! i \<le> snd (bnds ! i))"
  shows "valid_coder (length mins) t \<and> list_all (tiling_over mins maxs) (tilings t) \<and>
         includeBias t = bias \<and> map bins (tilings t) = bss"
proof -
  from new obtain ts where loop: "New_loop smp mins maxs sd od 0 bss = Inr ts"
    and t: "t = \<lparr>tilings = ts, includeBias = bias\<rparr>"
    by (auto simp: New_def bindE_def split: sum.splits)
  from New_loop_Inr [OF loop] have len: "length ts = length bss"
    and each: "\<And>i. i < length bss \<Longrightarrow> NewTiling smp mins maxs (bss ! i) sd od = Inr (ts ! i)"
    by simp_all
  have over: "tiling_over mins maxs (ts ! i) \<and> bins (ts ! i) = bss ! i \<and> length (bss ! i) = length mins"
    if i: "i < length bss" for i
  proof -
    let ?bs = "bss ! i"
    let ?bnds = "NewTiling_bounds mins maxs ?bs od"
    have nt: "NewTiling smp mins maxs ?bs sd od = Inr (ts ! i)" using each [OF i] .
    have bl: "bins (ts ! i) = ?bs" "length ?bs = length mins" using NewTiling_bins [OF nt] by simp_all
    have all: "list_all (\<lambda>b. 1 \<le> b) ?bs" using pos i by (simp add: list_all_length)
    have all53: "list_all (\<lambda>b. b \<le> 2 ^ 53) ?bs" using le53 i by (simp add: list_all_length)
    have "prod_list ?bs \<le> sum_list (map prod_list bss)" using pos i by (rule prod_list_le_sum_list)
    then have pf: "prod_list ?bs < 2 ^ 63" using fit by (simp split: if_splits)
    have lb: "length ?bnds = length mins" by (simp add: NewTiling_bounds_def)
    have l1: "length (smp sd ?bnds) = length mins" using smp [of ?bnds] lb by simp
    have l2: "list_all (\<lambda>j. fst (?bnds ! j) \<le> smp sd ?bnds ! j \<and> smp sd ?bnds ! j \<le> snd (?bnds ! j))
        [0..<length mins]"
    proof -
      have "fst (?bnds ! j) \<le> smp sd ?bnds ! j \<and> smp sd ?bnds ! j \<le> snd (?bnds ! j)"
        if j: "j < length mins" for j
      proof -
        have "1 \<le> ?bs ! j" "?bs ! j \<le> 2 ^ 53"
          using all all53 j bl(2) by (simp_all add: list_all_length)
        then have "float64_of_int (?bs ! j) = real_of_int (?bs ! j)" "0 < real_of_int (?bs ! j)"
          by (simp_all add: float64_of_int_exact)
        moreover have "mins ! j < maxs ! j" using lt j by (simp add: list_all_length)
        ultimately have "0 < binLength mins maxs ?bs j" by (simp add: binLength_def)
        then have "fst (?bnds ! j) \<le> snd (?bnds ! j)"
          using j by (simp add: NewTiling_bounds_def Let_def OffsetDiv_def)
        with smp [of ?bnds] j lb show ?thesis by simp
      qed
      then show ?thesis by (simp add: list_all_length)
    qed
    from NewTiling_tiling_over [OF nt all all53 pf lt l1 l2] bl show ?thesis by simp
  qed
  have vt: "list_all (\<lambda>tg. valid_tiling tg \<and> length (bins tg) = length mins) ts"
    using over len by (simp add: list_all_length tiling_over_def)
  have bs: "map bins ts = bss"
    using over len by (intro nth_equalityI) simp_all
  have "map (\<lambda>tg. prod_list (bins tg)) ts = map prod_list (map bins ts)"
    by simp
  then have "map (\<lambda>tg. prod_list (bins tg)) ts = map prod_list bss"
    by (simp only: bs)
  then have "sum_list (map (\<lambda>tg. prod_list (bins tg)) ts) + bias_of t < 2 ^ 63"
    using fit by (simp add: bias_of_def t)
  with vt have "valid_coder (length mins) t" by (simp add: valid_coder_def t)
  moreover have "list_all (tiling_over mins maxs) (tilings t)"
    using over len by (simp add: list_all_length t)
  ultimately show ?thesis using bs by (simp add: t)
qed

lemma ex_sampler_within:
  "length (ex_sampler sd bnds) = length bnds \<and>
   (\<forall>i<length bnds. fst (bnds ! i) \<le> snd (bnds ! i) \<longrightarrow>
       fst (bnds ! i) \<le> ex_sampler sd bnds ! i \<and> ex_sampler sd bnds ! i \<le> snd (bnds ! i))"
proof -
  define c where "c = real (unat sd mod 8) / 8"
  have f: "0 \<le> c" "c \<le> 1" by (simp_all add: c_def)
  have "a \<le> a + (b - a) * c \<and> a + (b - a) * c \<le> b" if "a \<le> b" for a b :: real
  proof
    show "a \<le> a + (b - a) * c" using that f by simp
    have "(b - a) * c \<le> (b - a) * 1" using that f by (intro mult_left_mono) auto
    then show "a + (b - a) * c \<le> b" by simp
  qed
  then show ?thesis by (simp add: ex_sampler_def c_def [symmetric])
qed

subsection \<open>The tile coder of the test\<close>

lemma valid_test_coder: "valid_coder 2 test_coder"
  by (simp add: valid_coder_def valid_tiling_def test_coder_def test_tiling0_def test_tiling1_def
      bias_of_def)


lemma VecLength_test_coder: "VecLength test_coder = 11"
  by (simp add: VecLength_def test_coder_def test_tiling0_def test_tiling1_def Tiles_def
      prod_int_def wrap64_def Let_def upt_rec [of 0] upt_rec [of 1])


subsection \<open>Tile coders at the limits\<close>





lemma valid_huge_coder: "valid_coder 2 huge_coder"
  by (simp add: valid_coder_def valid_tiling_def huge_coder_def huge_tiling0_def huge_tiling1_def
      bias_of_def)




subsection \<open>The entries of EncodeIndices\<close>




subsection \<open>The encoded vector\<close>




subsection \<open>Failures of the constructors\<close>

lemma NewTiling_DimensionMismatch:
  "NewTiling smp mins maxs bs sd od = Inl DimensionMismatch \<longleftrightarrow>
     length mins \<noteq> length maxs \<or> (bs \<noteq> [] \<and> length bs \<noteq> length mins)"
  by (auto simp: NewTiling_def Let_def)

lemma NewTiling_InvalidConfiguration:
  "NewTiling smp mins maxs bs sd od = Inl InvalidConfiguration \<longleftrightarrow>
     length mins = length maxs \<and> bs = []"
  by (auto simp: NewTiling_def Let_def)

lemma NewTiling_UniformMaxLessThanMin:
  "NewTiling smp mins maxs bs sd od = Inl UniformMaxLessThanMin \<longleftrightarrow>
     length mins = length maxs \<and> bs \<noteq> [] \<and> length bs = length mins \<and>
     (\<exists>i<length mins. binLength mins maxs bs i < 0)"
proof -
  have "list_ex (\<lambda>b. snd b < fst b) (NewTiling_bounds mins maxs bs od) \<longleftrightarrow>
      (\<exists>i<length mins. binLength mins maxs bs i < 0)"
    by (auto simp: list_ex_iff NewTiling_bounds_def Let_def OffsetDiv_def)
  then show ?thesis by (auto simp: NewTiling_def Let_def)
qed

lemma NewTiling_Inl_cases:
  "NewTiling smp mins maxs bs sd od = Inl e \<Longrightarrow>
     e = DimensionMismatch \<or> e = InvalidConfiguration \<or> e = UniformMaxLessThanMin"
  by (auto simp: NewTiling_def Let_def split: if_splits)

lemma NewTiling_offsetDiv:
  "NewTiling smp mins maxs bs sd od = NewTiling smp mins maxs bs sd od'"
  by (simp add: NewTiling_def NewTiling_bounds_def)

lemma New_loop_Inl:
  "New_loop smp mins maxs sd od n bss = Inl e \<longleftrightarrow>
    (\<exists>i<length bss. \<exists>e'. NewTiling smp mins maxs (bss ! i) sd od = Inl e' \<and>
        e = (if returned e' then CouldNotCreateTiling (n + i) e' else e') \<and>
        (\<forall>j<i. \<exists>tg. NewTiling smp mins maxs (bss ! j) sd od = Inr tg))"
proof (induction bss arbitrary: n)
  case Nil
  show ?case by simp
next
  case (Cons b bss)
  show ?case
  proof (cases "NewTiling smp mins maxs b sd od")
    case (Inl err)
    show ?thesis
    proof
      assume "New_loop smp mins maxs sd od n (b # bss) = Inl e"
      with Inl have "e = (if returned err then CouldNotCreateTiling n err else err)"
        by (simp split: if_splits)
      with Inl show "\<exists>i<length (b # bss). \<exists>e'. NewTiling smp mins maxs ((b # bss) ! i) sd od = Inl e' \<and>
        e = (if returned e' then CouldNotCreateTiling (n + i) e' else e') \<and>
        (\<forall>j<i. \<exists>tg. NewTiling smp mins maxs ((b # bss) ! j) sd od = Inr tg)"
        by (intro exI [of _ 0]) simp
    next
      assume "\<exists>i<length (b # bss). \<exists>e'. NewTiling smp mins maxs ((b # bss) ! i) sd od = Inl e' \<and>
        e = (if returned e' then CouldNotCreateTiling (n + i) e' else e') \<and>
        (\<forall>j<i. \<exists>tg. NewTiling smp mins maxs ((b # bss) ! j) sd od = Inr tg)"
      then obtain i e' where i: "i < length (b # bss)"
        and e': "NewTiling smp mins maxs ((b # bss) ! i) sd od = Inl e'"
        and e: "e = (if returned e' then CouldNotCreateTiling (n + i) e' else e')"
        and before: "\<forall>j<i. \<exists>tg. NewTiling smp mins maxs ((b # bss) ! j) sd od = Inr tg" by blast
      have "i = 0"
      proof (rule ccontr)
        assume "i \<noteq> 0"
        then have "0 < i" by simp
        with before have "\<exists>tg. NewTiling smp mins maxs ((b # bss) ! 0) sd od = Inr tg" by blast
        with Inl show False by simp
      qed
      with e e' Inl show "New_loop smp mins maxs sd od n (b # bss) = Inl e" by simp
    qed
  next
    case (Inr t)
    have "New_loop smp mins maxs sd od n (b # bss) = Inl e \<longleftrightarrow>
        New_loop smp mins maxs sd od (Suc n) bss = Inl e"
      using Inr by (simp add: bindE_def split: sum.splits)
    also have "\<dots> \<longleftrightarrow> (\<exists>i<length bss. \<exists>e'. NewTiling smp mins maxs (bss ! i) sd od = Inl e' \<and>
        e = (if returned e' then CouldNotCreateTiling (Suc n + i) e' else e') \<and>
        (\<forall>j<i. \<exists>tg. NewTiling smp mins maxs (bss ! j) sd od = Inr tg))"
      by (rule Cons.IH)
    also have "\<dots> \<longleftrightarrow> (\<exists>i<length (b # bss). \<exists>e'. NewTiling smp mins maxs ((b # bss) ! i) sd od = Inl e' \<and>
        e = (if returned e' then CouldNotCreateTiling (n + i) e' else e') \<and>
        (\<forall>j<i. \<exists>tg. NewTiling smp mins maxs ((b # bss) ! j) sd od = Inr tg))"
    proof
      assume "\<exists>i<length bss. \<exists>e'. NewTiling smp mins maxs (bss ! i) sd od = Inl e' \<and>
        e = (if returned e' then CouldNotCreateTiling (Suc n + i) e' else e') \<and>
        (\<forall>j<i. \<exists>tg. NewTiling smp mins maxs (bss ! j) sd od = Inr tg)"
      then obtain i e' where i: "i < length bss"
        and e': "NewTiling smp mins maxs (bss ! i) sd od = Inl e'"
        and e: "e = (if returned e' then CouldNotCreateTiling (Suc n + i) e' else e')"
        and before: "\<forall>j<i. \<exists>tg. NewTiling smp mins maxs (bss ! j) sd od = Inr tg" by blast
      have "\<forall>j<Suc i. \<exists>tg. NewTiling smp mins maxs ((b # bss) ! j) sd od = Inr tg"
        using before Inr by (auto simp: nth_Cons split: nat.splits)
      with i e' e show "\<exists>i<length (b # bss). \<exists>e'. NewTiling smp mins maxs ((b # bss) ! i) sd od = Inl e' \<and>
        e = (if returned e' then CouldNotCreateTiling (n + i) e' else e') \<and>
        (\<forall>j<i. \<exists>tg. NewTiling smp mins maxs ((b # bss) ! j) sd od = Inr tg)"
        by (intro exI [of _ "Suc i"]) simp
    next
      assume "\<exists>i<length (b # bss). \<exists>e'. NewTiling smp mins maxs ((b # bss) ! i) sd od = Inl e' \<and>
        e = (if returned e' then CouldNotCreateTiling (n + i) e' else e') \<and>
        (\<forall>j<i. \<exists>tg. NewTiling smp mins maxs ((b # bss) ! j) sd od = Inr tg)"
      then obtain i e' where i: "i < length (b # bss)"
        and e': "NewTiling smp mins maxs ((b # bss) ! i) sd od = Inl e'"
        and e: "e = (if returned e' then CouldNotCreateTiling (n + i) e' else e')"
        and before: "\<forall>j<i. \<exists>tg. NewTiling smp mins maxs ((b # bss) ! j) sd od = Inr tg" by blast
      from e' Inr obtain i' where i': "i = Suc i'" by (cases i) auto
      have "\<forall>j<i'. \<exists>tg. NewTiling smp mins maxs (bss ! j) sd od = Inr tg"
      proof (intro allI impI)
        fix j assume "j < i'"
        then have "Suc j < i" using i' by simp
        with before have "\<exists>tg. NewTiling smp mins maxs ((b # bss) ! Suc j) sd od = Inr tg" by blast
        then show "\<exists>tg. NewTiling smp mins maxs (bss ! j) sd od = Inr tg" by simp
      qed
      with i e' e i' show "\<exists>i<length bss. \<exists>e'. NewTiling smp mins maxs (bss ! i) sd od = Inl e' \<and>
        e = (if returned e' then CouldNotCreateTiling (Suc n + i) e' else e') \<and>
        (\<forall>j<i. \<exists>tg. NewTiling smp mins maxs (bss ! j) sd od = Inr tg)"
        by (intro exI [of _ i']) simp
    qed
    finally show ?thesis .
  qed
qed

lemma New_Inl:
  "New smp mins maxs bss sd bias od = Inl e \<longleftrightarrow>
    (\<exists>i<length bss. \<exists>e'. NewTiling smp mins maxs (bss ! i) sd od = Inl e' \<and>
        e = (if returned e' then CouldNotCreateTiling i e' else e') \<and>
        (\<forall>j<i. \<exists>tg. NewTiling smp mins maxs (bss ! j) sd od = Inr tg))"
proof -
  have "New smp mins maxs bss sd bias od = Inl e \<longleftrightarrow> New_loop smp mins maxs sd od 0 bss = Inl e"
    by (simp add: New_def bindE_def split: sum.splits)
  then show ?thesis by (simp add: New_loop_Inl)
qed

lemma NewTiling_negative_offsetDiv:
  "NewTiling ex_sampler [0] [1] [1] 1 (- 1) =
     Inr \<lparr>offsets = [- (1 / 2)], bins = [1], binLengths = [1], minDims = [0], seed = 1\<rparr>"
  by (simp add: NewTiling_def NewTiling_bounds_def binLength_def OffsetDiv_def ex_sampler_def
      Let_def float64_of_int_small)

lemma NewTiling_zero_bins:
  "NewTiling ex_sampler [0] [1] [0] 1 OffsetDiv \<noteq> Inl InvalidConfiguration"
  by (simp add: NewTiling_def NewTiling_bounds_def binLength_def OffsetDiv_def ex_sampler_def
      Let_def float64_of_int_small)

lemma NewTiling_no_bins: "NewTiling ex_sampler [0] [1] [] 1 OffsetDiv = Inl InvalidConfiguration"
  by (simp add: NewTiling_def)

lemma New_second_fails:
  "New ex_sampler [0] [1] [[1], [1, 1]] 1 False OffsetDiv
     = Inl (CouldNotCreateTiling 1 DimensionMismatch)"
  by (simp add: New_def NewTiling_def NewTiling_bounds_def binLength_def OffsetDiv_def ex_sampler_def
      Let_def bindE_def float64_of_int_small)

lemma NewTiling_negative_bins:
  "NewTiling ex_sampler [0] [1] [- 1] 1 OffsetDiv = Inl UniformMaxLessThanMin"
  by (simp add: NewTiling_def NewTiling_bounds_def binLength_def OffsetDiv_def Let_def
      float64_of_int_small)

text \<open>
  Claim C8, as amended. \<open>NewTiling\<close> fails with \<open>DimensionMismatch\<close> exactly when the
  lower and upper bounds differ in length, or \<open>bins\<close> is not empty and differs in
  length from the lower bounds; it fails with \<open>InvalidConfiguration\<close> when the bounds
  agree in length and \<open>bins\<close> is empty. A failure is a value \<open>Inl e\<close>, which holds no
  tiling. \<open>New\<close> fails exactly when \<open>NewTiling\<close> fails for one of its tilings: with the
  error that \<open>NewTiling\<close> returns for the first such tiling and the number of that
  tiling, or with the panic of \<open>NewTiling\<close> for that tiling.
\<close>

theorem NewTiling_failures:
  "(NewTiling smp mins maxs bs sd od = Inl DimensionMismatch \<longleftrightarrow>
      length mins \<noteq> length maxs \<or> (bs \<noteq> [] \<and> length bs \<noteq> length mins)) \<and>
   (length mins = length maxs \<and> bs = [] \<longrightarrow>
      NewTiling smp mins maxs bs sd od = Inl InvalidConfiguration) \<and>
   (New smp mins maxs bss sd bias od = Inl e \<longleftrightarrow>
      (\<exists>i<length bss. \<exists>e'. NewTiling smp mins maxs (bss ! i) sd od = Inl e' \<and>
          e = (if returned e' then CouldNotCreateTiling i e' else e') \<and>
          (\<forall>j<i. \<exists>tg. NewTiling smp mins maxs (bss ! j) sd od = Inr tg)))"
  using NewTiling_DimensionMismatch [of smp mins maxs bs sd od]
    NewTiling_InvalidConfiguration [of smp mins maxs bs sd od]
    New_Inl [of smp mins maxs bss sd bias od e]
  by blast

theorem NewTiling_failures_witness:
  "NewTiling ex_sampler [0] [1] [1, 1] 1 OffsetDiv = Inl DimensionMismatch \<and>
   NewTiling ex_sampler [0] [1] [] 1 OffsetDiv = Inl InvalidConfiguration \<and>
   New ex_sampler [0] [1] [[1], [1, 1]] 1 False OffsetDiv = Inl (CouldNotCreateTiling 1 DimensionMismatch) \<and>
   New ex_sampler [0] [1] [[1], [- 1]] 1 False OffsetDiv = Inl UniformMaxLessThanMin"
proof -
  have a: "NewTiling ex_sampler [0] [1] [1, 1] 1 OffsetDiv = Inl DimensionMismatch"
    using NewTiling_failures [of ex_sampler "[0]" "[1]" "[1, 1]" 1 OffsetDiv] by simp
  have b: "NewTiling ex_sampler [0] [1] [] 1 OffsetDiv = Inl InvalidConfiguration"
    using NewTiling_failures [of ex_sampler "[0]" "[1]" "[]" 1 OffsetDiv] by simp
  have first: "\<exists>tg. NewTiling ex_sampler [0] [1] [1] 1 OffsetDiv = Inr tg"
    by (simp add: NewTiling_def NewTiling_bounds_def binLength_def OffsetDiv_def Let_def
        float64_of_int_small)
  have "\<exists>i<length [[1], [1, 1 :: int]]. \<exists>e'.
      NewTiling ex_sampler [0] [1] ([[1], [1, 1]] ! i) 1 OffsetDiv = Inl e' \<and>
      CouldNotCreateTiling 1 DimensionMismatch
        = (if returned e' then CouldNotCreateTiling i e' else e') \<and>
      (\<forall>j<i. \<exists>tg. NewTiling ex_sampler [0] [1] ([[1], [1, 1]] ! j) 1 OffsetDiv = Inr tg)"
    using a first by (intro exI [of _ 1]) simp
  then have d: "New ex_sampler [0] [1] [[1], [1, 1]] 1 False OffsetDiv
      = Inl (CouldNotCreateTiling 1 DimensionMismatch)"
    using NewTiling_failures [of ex_sampler "[0]" "[1]" _ 1 OffsetDiv "[[1], [1, 1]]" False
        "CouldNotCreateTiling 1 DimensionMismatch"] by blast
  have "\<exists>i<length [[1], [- 1 :: int]]. \<exists>e'.
      NewTiling ex_sampler [0] [1] ([[1], [- 1]] ! i) 1 OffsetDiv = Inl e' \<and>
      UniformMaxLessThanMin = (if returned e' then CouldNotCreateTiling i e' else e') \<and>
      (\<forall>j<i. \<exists>tg. NewTiling ex_sampler [0] [1] ([[1], [- 1]] ! j) 1 OffsetDiv = Inr tg)"
    using NewTiling_negative_bins first by (intro exI [of _ 1]) simp
  then have e: "New ex_sampler [0] [1] [[1], [- 1]] 1 False OffsetDiv = Inl UniformMaxLessThanMin"
    using NewTiling_failures [of ex_sampler "[0]" "[1]" _ 1 OffsetDiv "[[1], [- 1]]" False
        UniformMaxLessThanMin] by blast
  from a b d e show ?thesis by blast
qed

text \<open>
  Claim C8 as stated has \<open>NewTiling\<close> fail with \<open>DimensionMismatch\<close> exactly when \<open>bins\<close>
  and the lower bounds, or the two bounds, differ in length. The test for empty
  \<open>bins\<close> comes before the comparison of \<open>bins\<close> with the lower bounds: with no bins
  and one bound the error is \<open>InvalidConfiguration\<close>, not \<open>DimensionMismatch\<close>.
\<close>

theorem NewTiling_unchecked_counterexample:
  "length ([] :: int list) \<noteq> length [0 :: real] \<and>
   NewTiling ex_sampler [0] [1] [] 1 OffsetDiv = Inl InvalidConfiguration \<and>
   NewTiling ex_sampler [0] [1] [] 1 OffsetDiv \<noteq> Inl DimensionMismatch"
  using NewTiling_no_bins by simp

subsection \<open>The strides of Index\<close>

text \<open>In one and in two dimensions \<open>Index\<close> is the row-major index.\<close>

lemma rowMajorIndex_two:
  assumes "valid_tiling t" "length (bins t) \<le> length v" "length (bins t) \<le> 2"
  shows "Index t v = Inr (rowMajorIndex t v)"
proof -
  from assms(1) have ne: "bins t \<noteq> []" by (simp add: valid_tiling_def)
  then obtain a rest where br: "bins t = a # rest" by (cases "bins t") auto
  show ?thesis
  proof (cases rest)
    case Nil
    with br have "bins t = [a]" by simp
    then show ?thesis using Index_sum [OF assms(1,2)] by (auto simp: rowMajorIndex_def)
  next
    case (Cons b rest')
    with br assms(3) have "bins t = [a, b]" by simp
    then show ?thesis
      using Index_sum [OF assms(1,2)]
      by (auto simp: rowMajorIndex_def lessThan_Suc)
  qed
qed

lemma valid_cube_tiling: "valid_tiling cube_tiling"
  by (simp add: valid_tiling_def cube_tiling_def)

text \<open>
  Claim C2: \<open>Index\<close> is the row-major flattening of the tiles along the dimensions,
  the tile along dimension \<open>i\<close> multiplied by the product of \<open>bins ! j\<close> for all
  \<open>j > i\<close>. The code multiplies by \<open>bins ! (i + 1)\<close> alone. In three dimensions the two
  differ: in the tiling of 2 x 2 x 2 tiles the vector with the tiles \<open>(1, 0, 0)\<close> has
  the row-major index 4 and the \<open>Index\<close> 2, which is also the \<open>Index\<close> of the vector
  with the tiles \<open>(0, 1, 0)\<close>.
\<close>

theorem Index_not_row_major:
  "valid_tiling cube_tiling \<and>
   Index cube_tiling [7 / 4, 3 / 4, 3 / 4] = Inr 2 \<and>
   rowMajorIndex cube_tiling [7 / 4, 3 / 4, 3 / 4] = 4 \<and>
   Index cube_tiling [3 / 4, 7 / 4, 3 / 4] = Inr 2 \<and>
   rowMajorIndex cube_tiling [3 / 4, 7 / 4, 3 / 4] = 2"
proof -
  have "Index cube_tiling [7 / 4, 3 / 4, 3 / 4] = Inr 2 \<and>
   rowMajorIndex cube_tiling [7 / 4, 3 / 4, 3 / 4] = 4 \<and>
   Index cube_tiling [3 / 4, 7 / 4, 3 / 4] = Inr 2 \<and>
   rowMajorIndex cube_tiling [3 / 4, 7 / 4, 3 / 4] = 2"
    by (simp add: cube_tiling_def Index_def rowMajorIndex_def tileIndex_def Clip_def
      int_of_float_def wrap64_def Let_def float64_of_int_small eval_nat_numeral
      upt_rec [of 0] upt_rec [of 1] upt_rec [of 2] upt_rec [of 3])
  with valid_cube_tiling show ?thesis by blast
qed

subsection \<open>IndexBatch on a batch that is not square\<close>

text \<open>
  On a square batch, with as many samples as coordinates, \<open>IndexBatch\<close> is \<open>Index\<close> of
  every column; on every other batch it panics.
\<close>

lemma real_tileIndex:
  assumes "1 \<le> bins t ! i" "bins t ! i \<le> 2 ^ 53"
  shows "real_of_int (tileIndex t v i) =
     Clip (real_of_int \<lfloor>(v ! i + offsets t ! i - minDims t ! i) / binLengths t ! i\<rfloor>) 0
       (float64_of_int (wrap64 (bins t ! i - 1)))"
proof -
  have w: "wrap64 (bins t ! i - 1) = bins t ! i - 1"
    using assms by (intro wrap64_id) auto
  have f: "float64_of_int (bins t ! i - 1) = real_of_int (bins t ! i - 1)"
    using assms by (intro float64_of_int_exact) auto
  show ?thesis
    unfolding w f Clip_of_int tileIndex_eq [OF assms] Let_def ..
qed

lemma RowView_square:
  assumes "Rows b = m" "Cols b = m" "length (Data b) = m * m" "i < m"
  shows "RowView b i = Inr (map (\<lambda>c. ColView b c ! i) [0..<m])"
proof -
  have "i * m + m \<le> m * m"
  proof -
    have "Suc i * m \<le> m * m" using assms(4) by (intro mult_le_mono1) simp
    then show ?thesis by (simp add: add.commute)
  qed
  then have len: "length (take m (drop (i * m) (Data b))) = m" using assms(3) by simp
  have "take m (drop (i * m) (Data b)) = map (\<lambda>c. ColView b c ! i) [0..<m]"
  proof (rule nth_equalityI)
    show "length (take m (drop (i * m) (Data b))) = length (map (\<lambda>c. ColView b c ! i) [0..<m])"
      using len by simp
    fix c assume "c < length (take m (drop (i * m) (Data b)))"
    then have c: "c < m" using len by simp
    then have "i * m + c < length (Data b)" using \<open>i * m + m \<le> m * m\<close> assms(3) by simp
    then show "take m (drop (i * m) (Data b)) ! c = map (\<lambda>c. ColView b c ! i) [0..<m] ! c"
      using c assms by (simp add: ColView_def)
  qed
  then show ?thesis using assms by (simp add: RowView_def)
qed

lemma IndexBatch_loop_square:
  assumes sq: "Rows b = m" "Cols b = m" "length (Data b) = m * m"
    and all: "list_all (\<lambda>b. 1 \<le> b) (bins t)" and le53: "list_all (\<lambda>b. b \<le> 2 ^ 53) (bins t)"
    and lens: "length (bins t) \<le> m" "length (bins t) \<le> length (offsets t)"
      "length (bins t) \<le> length (minDims t)" "length (bins t) \<le> length (binLengths t)"
  shows "k \<le> length (bins t) \<Longrightarrow> length index = m \<Longrightarrow>
    IndexBatch_loop t b (replicate m 1) k index =
      Inr (map (\<lambda>c. index ! c + real_of_int (\<Sum>i<k. tileIndex t (ColView b c) i *
              (if Suc i = length (bins t) then 1 else bins t ! (i + 1)))) [0..<m])"
proof (induction k arbitrary: index)
  case 0
  then have "map ((!) index) [0..<m] = index" using map_nth [of index] by simp
  then show ?case by simp
next
  case (Suc i)
  let ?n = "length (bins t)"
  let ?stride = "if Suc i = ?n then 1 else bins t ! (i + 1)"
  from Suc.prems lens have i: "i < ?n" "i < m" "i < length (offsets t)" "i < length (minDims t)"
    "i < length (binLengths t)" by simp_all
  let ?data = "map (\<lambda>c. real_of_int (tileIndex t (ColView b c) i)) [0..<m]"
  let ?index' = "map (\<lambda>c. index ! c + real_of_int (tileIndex t (ColView b c) i * ?stride)) [0..<m]"
  have row: "RowView b i = Inr (map (\<lambda>c. ColView b c ! i) [0..<m])"
    using sq i(2) by (rule RowView_square)
  let ?d1 = "map (\<lambda>c. ColView b c ! i + offsets t ! i) [0..<m]"
  let ?d2 = "map (\<lambda>c. ColView b c ! i + offsets t ! i - minDims t ! i) [0..<m]"
  have a1: "AddScaledVec (map (\<lambda>c. ColView b c ! i) [0..<m]) (offsets t ! i) (replicate m 1) = Inr ?d1"
    unfolding AddScaledVec_def by (simp, intro nth_equalityI) simp_all
  have a2: "AddScaledVec ?d1 (- (minDims t ! i)) (replicate m 1) = Inr ?d2"
    unfolding AddScaledVec_def by (simp, intro nth_equalityI) simp_all
  have bi: "1 \<le> bins t ! i" "bins t ! i \<le> 2 ^ 53"
    using all le53 i(1) by (simp_all add: list_all_length)
  have d: "VecClip (VecFloor ?d2 (binLengths t ! i)) 0 (float64_of_int (wrap64 (bins t ! i - 1))) = ?data"
    by (rule nth_equalityI)
      (simp_all add: VecClip_def VecFloor_def real_tileIndex [OF bi] del: of_int_diff)
  have fs: "float64_of_int (bins t ! (i + 1)) = real_of_int (bins t ! (i + 1))" if "Suc i \<noteq> ?n"
  proof -
    from that i(1) have "i + 1 < ?n" by simp
    then have "1 \<le> bins t ! (i + 1)" "bins t ! (i + 1) \<le> 2 ^ 53"
      using all le53 by (simp_all add: list_all_length)
    then show ?thesis by (intro float64_of_int_exact) auto
  qed
  have g: "\<not> (length (offsets t) \<le> i \<or> length (minDims t) \<le> i \<or> length (binLengths t) \<le> i)"
    using i by simp
  have acc: "(if Suc i = ?n then AddVec index ?data
        else AddScaledVec index (float64_of_int (bins t ! (i + 1))) ?data) = Inr ?index'"
  proof -
    have "map2 (\<lambda>x y. x + y) index ?data = ?index'" if "Suc i = ?n"
      using that Suc.prems(2) by (intro nth_equalityI) simp_all
    moreover have "map2 (\<lambda>x y. x + float64_of_int (bins t ! (i + 1)) * y) index ?data = ?index'"
      if "Suc i \<noteq> ?n"
      unfolding fs [OF that]
      using that Suc.prems(2) by (intro nth_equalityI) (simp_all add: mult.commute)
    ultimately show ?thesis using Suc.prems(2) by (simp add: AddVec_def AddScaledVec_def)
  qed
  have step: "IndexBatch_loop t b (replicate m 1) (Suc i) index
      = IndexBatch_loop t b (replicate m 1) i ?index'"
    by (simp only: IndexBatch_loop.simps g if_False row bindE_def sum.case a1 a2 Let_def d acc)
  have "IndexBatch_loop t b (replicate m 1) i ?index' =
      Inr (map (\<lambda>c. ?index' ! c + real_of_int (\<Sum>i<i. tileIndex t (ColView b c) i *
              (if Suc i = ?n then 1 else bins t ! (i + 1)))) [0..<m])"
    using Suc.prems by (intro Suc.IH) simp_all
  also have "map (\<lambda>c. ?index' ! c + real_of_int (\<Sum>i<i. tileIndex t (ColView b c) i *
              (if Suc i = ?n then 1 else bins t ! (i + 1)))) [0..<m]
      = map (\<lambda>c. index ! c + real_of_int (\<Sum>i<Suc i. tileIndex t (ColView b c) i *
              (if Suc i = ?n then 1 else bins t ! (i + 1)))) [0..<m]"
    by (rule map_cong) simp_all
  finally show ?case by (simp only: step)
qed

lemma IndexBatch_square:
  assumes vt: "valid_tiling t"
    and sq: "Rows b = m" "Cols b = m" "length (Data b) = m * m" and m: "length (bins t) \<le> m"
  shows "\<exists>idx. length idx = m \<and> IndexBatch t b = Inr (map real_of_int idx) \<and>
           (\<forall>c<m. Index t (ColView b c) = Inr (idx ! c))"
proof -
  let ?n = "length (bins t)"
  from vt have lens: "?n \<le> length (offsets t)" "?n \<le> length (minDims t)"
      "?n \<le> length (binLengths t)" and ne: "bins t \<noteq> []"
    and all: "list_all (\<lambda>b. 1 \<le> b) (bins t)" and le53: "list_all (\<lambda>b. b \<le> 2 ^ 53) (bins t)"
    by (simp_all add: valid_tiling_def)
  from ne m have m0: "0 < m" by (cases "bins t") auto
  define idx where "idx = map (\<lambda>c. \<Sum>i<?n. tileIndex t (ColView b c) i *
              (if Suc i = ?n then 1 else bins t ! (i + 1))) [0..<m]"
  have "IndexBatch t b = IndexBatch_loop t b (replicate m 1) ?n (replicate m 0)"
    using m0 sq(1) by (simp add: IndexBatch_def VecOnes_def NewVecDense_def bindE_def Let_def)
  also have "\<dots> = Inr (map (\<lambda>c. replicate m 0 ! c + real_of_int (\<Sum>i<?n. tileIndex t (ColView b c) i *
              (if Suc i = ?n then 1 else bins t ! (i + 1)))) [0..<m])"
    using sq all le53 m lens by (intro IndexBatch_loop_square) simp_all
  also have "map (\<lambda>c. replicate m 0 ! c + real_of_int (\<Sum>i<?n. tileIndex t (ColView b c) i *
              (if Suc i = ?n then 1 else bins t ! (i + 1)))) [0..<m] = map real_of_int idx"
    unfolding idx_def by (rule nth_equalityI) simp_all
  finally have ib: "IndexBatch t b = Inr (map real_of_int idx)" .
  have "Index t (ColView b c) = Inr (idx ! c)" if c: "c < m" for c
  proof -
    have "?n \<le> length (ColView b c)" using m sq(1) by (simp add: ColView_def)
    from Index_sum [OF vt this] c show ?thesis by (auto simp: idx_def)
  qed
  moreover have "length idx = m" by (simp add: idx_def)
  ultimately show ?thesis using ib by blast
qed

lemma RowView_length:
  assumes "length (Data b) = Rows b * Cols b" "RowView b i = Inr row"
  shows "length row = Cols b"
proof -
  from assms(2) have i: "i < Rows b" and row: "row = take (Cols b) (drop (i * Cols b) (Data b))"
    by (auto simp: RowView_def split: if_splits)
  have "Suc i * Cols b \<le> Rows b * Cols b" using i by (intro mult_le_mono1) simp
  then have "Cols b \<le> Rows b * Cols b - i * Cols b" by simp
  then show ?thesis using assms(1) by (simp add: row)
qed

lemma IndexBatch_panics_unless_square:
  assumes vt: "valid_tiling t"
    and ns: "Rows b \<noteq> Cols b" and len: "length (Data b) = Rows b * Cols b"
  shows "\<exists>e. IndexBatch t b = Inl e"
proof (cases "Rows b = 0")
  case True
  then show ?thesis by (simp add: IndexBatch_def VecOnes_def NewVecDense_def bindE_def)
next
  case False
  from vt obtain i where n: "length (bins t) = Suc i" by (cases "bins t") (auto simp: valid_tiling_def)
  let ?ones = "replicate (Rows b) (1::real)"
  let ?zero = "replicate (Rows b) (0::real)"
  have start: "IndexBatch t b = IndexBatch_loop t b ?ones (Suc i) ?zero"
    using False by (simp add: IndexBatch_def VecOnes_def NewVecDense_def bindE_def Let_def n)
  have "\<exists>e. IndexBatch_loop t b ?ones (Suc i) ?zero = Inl e"
  proof (cases "RowView b i")
    case (Inl e)
    then show ?thesis by (simp add: bindE_def)
  next
    case (Inr row)
    with len have "length row = Cols b" by (rule RowView_length)
    then have "AddScaledVec row (offsets t ! i) ?ones = Inl ErrShape"
      using ns by (simp add: AddScaledVec_def)
    with Inr show ?thesis by (simp add: bindE_def)
  qed
  with start show ?thesis by simp
qed

lemma valid_line_tiling: "tiling_over [0] [2] line_tiling"
  by (simp add: tiling_over_def valid_tiling_def line_tiling_def binLength_def OffsetDiv_def
      float64_of_int_small)

text \<open>
  Claim C3: entry \<open>c\<close> of \<open>IndexBatch b\<close> is \<open>Index\<close> of column \<open>c\<close> of \<open>b\<close>.
  \<open>IndexBatch\<close> makes its vector of ones and its result with as many entries as the
  batch has rows, and adds them to rows of the batch, which have as many entries as
  the batch has columns. On a batch of one row and two columns the first
  \<^verbatim>\<open>AddScaledVec\<close> panics, where \<open>Index\<close> of the two columns is 0 and 1.
\<close>

theorem IndexBatch_not_square:
  "tiling_over [0] [2] line_tiling \<and>
   line_batch = \<lparr>Rows = 1, Cols = 2, Data = [3 / 4, 7 / 4]\<rparr> \<and>
   ColView line_batch 0 = [3 / 4] \<and> ColView line_batch 1 = [7 / 4] \<and>
   Index line_tiling (ColView line_batch 0) = Inr 0 \<and>
   Index line_tiling (ColView line_batch 1) = Inr 1 \<and>
   IndexBatch line_tiling line_batch = Inl ErrShape"
proof -
  have "line_batch = \<lparr>Rows = 1, Cols = 2, Data = [3 / 4, 7 / 4]\<rparr> \<and>
   ColView line_batch 0 = [3 / 4] \<and> ColView line_batch 1 = [7 / 4] \<and>
   Index line_tiling (ColView line_batch 0) = Inr 0 \<and>
   Index line_tiling (ColView line_batch 1) = Inr 1 \<and>
   IndexBatch line_tiling line_batch = Inl ErrShape"
    by (simp add: line_batch_def line_tiling_def ColView_def IndexBatch_def
      VecOnes_def NewVecDense_def RowView_def AddScaledVec_def bindE_def Index_def tileIndex_def
      Clip_def int_of_float_def wrap64_def Let_def float64_of_int_small)
  with valid_line_tiling show ?thesis by blast
qed

subsection \<open>ToIndices\<close>

text \<open>
  What the loop of \<open>ToIndices\<close> does: it panics exactly on the vectors with an entry
  0, and otherwise returns every position.
\<close>

lemma ToIndices_loop_zero:
  "0 \<in> set v \<Longrightarrow> ToIndices_loop i v idx = Inl InvalidEncodedVector"
  by (induction v arbitrary: i idx) auto

lemma ToIndices_loop_nonzero:
  "0 \<notin> set v \<Longrightarrow>
   ToIndices_loop i v idx = Inr (idx @ map (\<lambda>p. float64_of_int (int p)) [i..<i + length v])"
proof (induction v arbitrary: i idx)
  case Nil
  then show ?case by simp
next
  case (Cons x v)
  let ?f = "\<lambda>p. float64_of_int (int p)"
  have x: "x \<noteq> 0" using Cons.prems by auto
  have e: "[i..<i + length (x # v)] = i # [Suc i..<i + length (x # v)]"
    by (rule upt_conv_Cons) simp
  have f: "Suc i + length v = i + length (x # v)" by simp
  have "ToIndices_loop i (x # v) idx = ToIndices_loop (Suc i) v (idx @ [?f i])"
    using x by simp
  also have "\<dots> = Inr ((idx @ [?f i]) @ map ?f [Suc i..<Suc i + length v])"
    using Cons.prems by (intro Cons.IH) simp
  also have "(idx @ [?f i]) @ map ?f [Suc i..<Suc i + length v]
      = idx @ map ?f (i # [Suc i..<i + length (x # v)])"
    unfolding f by simp
  finally show ?case unfolding e .
qed

lemma ToIndices_fails_iff:
  "ToIndices t v = Inl InvalidEncodedVector \<longleftrightarrow> 0 \<in> set v"
proof (cases "0 \<in> set v")
  case True
  then show ?thesis by (simp add: ToIndices_def bindE_def ToIndices_loop_zero)
next
  case False
  then show ?thesis
    by (simp add: ToIndices_def bindE_def ToIndices_loop_nonzero NewVecDense_def)
qed

lemma valid_line_coder: "valid_coder 1 line_coder"
  by (simp add: valid_coder_def valid_tiling_def line_coder_def line_tiling_def bias_of_def)

text \<open>
  Claim C4: \<open>ToIndices\<close> fails exactly on vectors with an entry other than 0 and 1,
  and returns the positions of the entries 1. The code appends every position whose
  entry is not 0 and panics on every entry 0: the vector \<open>[0.5]\<close> gives the position
  0, and the tile-coded vectors \<open>[0, 1]\<close> and \<open>[1, 0]\<close> give the panic.
\<close>

theorem ToIndices_wrong_test:
  "ToIndices line_coder [1 / 2] = Inr [0] \<and>
   ToIndices line_coder [0, 1] = Inl InvalidEncodedVector \<and>
   ToIndices line_coder [1, 0] = Inl InvalidEncodedVector"
  by (simp add: ToIndices_def NumTilings_def NewVecDense_def bindE_def line_coder_def
      float64_of_int_small)

text \<open>
  Claim C5: \<open>ToIndices (Encode v)\<close> succeeds with the indices of \<open>EncodeIndices v\<close>, and
  \<open>ToVector (EncodeIndices v) = Encode v\<close>. For the tile coder of the test and
  \<open>v = [1, 3]\<close> the second equation holds, and \<open>ToIndices\<close> panics on the encoded
  vector, which has entries 0.
\<close>

theorem ToIndices_Encode_fails:
  "valid_coder 2 test_coder \<and>
   EncodeIndices test_coder (in_order test_coder) [1, 3] = Some (Inr [2, 7, 0]) \<and>
   Encode test_coder (in_order test_coder) [1, 3] = Some (Inr [1, 0, 1, 0, 0, 0, 0, 1, 0, 0, 0]) \<and>
   ToIndices test_coder [1, 0, 1, 0, 0, 0, 0, 1, 0, 0, 0] = Inl InvalidEncodedVector \<and>
   ToVector test_coder [2, 7, 0] = Inr [1, 0, 1, 0, 0, 0, 0, 1, 0, 0, 0]"
proof -
  have io: "in_order test_coder = [Send 0, Send 1, Receive, Receive]"
    by (simp add: in_order_def test_coder_def eval_nat_numeral upt_rec [of 0] upt_rec [of 1])
  have ei: "EncodeIndices test_coder [Send 0, Send 1, Receive, Receive] [1, 3] = Some (Inr [2, 7, 0])"
    by (simp add: EncodeIndices_def run_start_def test_coder_def test_tiling0_def test_tiling1_def bias_of_def
      encodeWithTiling_def featuresBeforeTiling_def Tiles_def prod_int_def Index_def tileIndex_def
      Clip_def int_of_float_def bindE_def wrap64_def Let_def float64_of_int_small)
  have nv: "NewVecDense (VecLength test_coder) None = Inr (replicate 11 0)"
    by (simp add: VecLength_test_coder NewVecDense_def)
  have sv: "SetVec_each (replicate 11 0) [2, 7, 0] = Inr [1, 0, 1, 0, 0, 0, 0, 1, 0, 0, 0]"
    by (simp add: SetVec_def int_of_float_def bindE_def eval_nat_numeral)
  have tv: "ToVector test_coder [2, 7, 0] = Inr [1, 0, 1, 0, 0, 0, 0, 1, 0, 0, 0]"
    by (simp only: ToVector_def nv bindE_def sum.case sv)
  have en: "Encode test_coder [Send 0, Send 1, Receive, Receive] [1, 3]
      = Some (Inr [1, 0, 1, 0, 0, 0, 0, 1, 0, 0, 0])"
    using Encode_ToVector [OF ei] tv by simp
  have ti: "ToIndices test_coder [1, 0, 1, 0, 0, 0, 0, 1, 0, 0, 0] = Inl InvalidEncodedVector"
    by (simp add: ToIndices_def bindE_def)
  from valid_test_coder ei en ti tv show ?thesis by (simp add: io)
qed

subsection \<open>The offsets and offsetDiv\<close>

text \<open>
  Claim C9: the offsets are drawn from the interval from \<open>- binLength / offsetDiv\<close>
  to \<open>binLength / offsetDiv\<close>, for the \<open>offsetDiv\<close> the caller gives. The code divides
  by the constant \<open>OffsetDiv = 1.5\<close>: for one bin over \<open>[0, 3]\<close> and \<open>offsetDiv = 3\<close>
  the uniform distribution gets the bounds \<open>- 2\<close> and \<open>2\<close>, where the claim has \<open>- 1\<close>
  and \<open>1\<close>, and the sampler of the examples with seed 7 gives the offset \<open>3 / 2\<close>.
\<close>

theorem NewTiling_ignores_offsetDiv:
  "NewTiling_bounds [0] [3] [1] 3 = [(- 2, 2)] \<and>
   binLength [0] [3] [1] 0 / 3 = 1 \<and>
   NewTiling ex_sampler [0] [3] [1] 7 3 =
     Inr \<lparr>offsets = [3 / 2], bins = [1], binLengths = [3], minDims = [0], seed = 7\<rparr>"
  by (simp add: NewTiling_def NewTiling_bounds_def binLength_def OffsetDiv_def ex_sampler_def
      Let_def float64_of_int_small)

end
